theory Spec2Isabelle
  imports Main "HOL-Library.AList"
begin

section \<open>JavaScript values\<close>

text \<open>
  The data that crosses the message channel and the option objects of the SDK are plain
  structured data. Numbers are restricted to the integers (request ids, timer delays);
  objects are association lists in property order.
\<close>

datatype jsval =
    JUndefined
  | JNull
  | JBool bool
  | JNum int
  | JStr string
  | JArr "jsval list"
  | JObj "(string \<times> jsval) list"

type_synonym jsobj = "(string \<times> jsval) list"

datatype error = Error string | TypeError string

text \<open>What a promise is rejected with: a thrown error object or any value.\<close>

datatype reason = Thrown error | Value jsval

text \<open>\<open>o?.k\<close>: property read with optional chaining; primitives have none of the
  properties read by this program.\<close>

fun get_opt :: "jsval \<Rightarrow> string \<Rightarrow> jsval" where
  "get_opt (JObj kvs) k = (case map_of kvs k of Some v \<Rightarrow> v | None \<Rightarrow> JUndefined)"
| "get_opt _ k = JUndefined"

text \<open>\<open>o.k\<close>: property read; a TypeError on \<open>undefined\<close> and \<open>null\<close>.\<close>

fun get_prop :: "jsval \<Rightarrow> string \<Rightarrow> error + jsval" where
  "get_prop JUndefined k = Inl (TypeError ''Cannot read properties of undefined'')"
| "get_prop JNull k = Inl (TypeError ''Cannot read properties of null'')"
| "get_prop v k = Inr (get_opt v k)"

text \<open>JavaScript truthiness.\<close>

fun truthy :: "jsval \<Rightarrow> bool" where
  "truthy JUndefined = False"
| "truthy JNull = False"
| "truthy (JBool b) = b"
| "truthy (JNum n) = (n \<noteq> 0)"
| "truthy (JStr s) = (s \<noteq> [])"
| "truthy _ = True"

text \<open>\<open>a ?? b\<close>\<close>

fun nullish :: "jsval \<Rightarrow> jsval \<Rightarrow> jsval" where
  "nullish JUndefined d = d"
| "nullish JNull d = d"
| "nullish v d = v"

text \<open>\<open>typeof v === 'string'\<close>\<close>

fun is_string :: "jsval \<Rightarrow> bool" where
  "is_string (JStr s) = True"
| "is_string _ = False"

text \<open>Decimal digits of a number, for template literals.\<close>

fun digit :: "nat \<Rightarrow> char" where
  "digit n = (''0123456789'' ! (n mod 10))"

fun show_nat :: "nat \<Rightarrow> string" where
  "show_nat n = (if n < 10 then [digit n] else show_nat (n div 10) @ [digit n])"

definition show_int :: "int \<Rightarrow> string" where
  "show_int i = (if i < 0 then CHR ''-'' # show_nat (nat (- i)) else show_nat (nat i))"

fun join :: "string \<Rightarrow> string list \<Rightarrow> string" where
  "join sep [] = []"
| "join sep [x] = x"
| "join sep (x # xs) = x @ sep @ join sep xs"

text \<open>\<open>String(v)\<close>, as a template literal applies it.\<close>

fun to_String :: "jsval \<Rightarrow> string" where
  "to_String JUndefined = ''undefined''"
| "to_String JNull = ''null''"
| "to_String (JBool b) = (if b then ''true'' else ''false'')"
| "to_String (JNum n) = show_int n"
| "to_String (JStr s) = s"
| "to_String (JArr vs) =
     join '','' (map (\<lambda>v. if v = JUndefined \<or> v = JNull then [] else to_String v) vs)"
| "to_String (JObj kvs) = ''[object Object]''"

text \<open>\<open>s.startsWith(p)\<close>\<close>

definition startsWith :: "string \<Rightarrow> string \<Rightarrow> bool" where
  "startsWith s p = (take (length p) s = p)"

text \<open>An object literal \<open>{k1: v1, ..., ...spread}\<close>: a later key overwrites the value of an
  earlier one and keeps its position.\<close>

definition assign :: "jsobj \<Rightarrow> jsobj \<Rightarrow> jsobj" where
  "assign obj props = fold (\<lambda>(k, v). AList.update k v) props obj"

definition field :: "jsobj \<Rightarrow> string \<Rightarrow> jsval" where
  "field obj k = get_opt (JObj obj) k"

section \<open>createUIResource\<close>

record CreateUIResourceOptions =
  uri :: string
  content :: jsobj
  encoding :: jsval
  adapters :: jsval
  resourceProps :: jsval
  uiMetadata :: jsval
  metadata :: jsval
  embeddedResourceProps :: "jsobj option"

text \<open>
  The helpers of \<open>utils.js\<close> and the constant of \<open>types.js\<close> that \<open>createUIResource\<close>
  imports are parameters of the model.
\<close>

record utils =
  getAdditionalResourceProps :: "CreateUIResourceOptions \<Rightarrow> jsobj"
  utf8ToBase64 :: "string \<Rightarrow> string"
  wrapHtmlWithAdapters :: "string \<Rightarrow> jsval \<Rightarrow> string"
  getAdapterMimeType :: "jsval \<Rightarrow> jsval"
  RESOURCE_MIME_TYPE :: string

text \<open>The first half of the function: the content string and the MIME type.\<close>

definition content_and_mime :: "utils \<Rightarrow> CreateUIResourceOptions \<Rightarrow> error + (string \<times> jsval)" where
  "content_and_mime u options =
    (if field (content options) ''type'' = JStr ''rawHtml'' then
       if \<not> startsWith (uri options) ''ui://'' then
         Inl (Error ''MCP-UI SDK: URI must start with 'ui://' when content.type is 'rawHtml'.'')
       else
         (case field (content options) ''htmlString'' of
            JStr html \<Rightarrow>
              if truthy (adapters options) then
                Inr (wrapHtmlWithAdapters u html (adapters options),
                     nullish (getAdapterMimeType u (adapters options)) (JStr (RESOURCE_MIME_TYPE u)))
              else Inr (html, JStr (RESOURCE_MIME_TYPE u))
          | _ \<Rightarrow>
              Inl (Error ''MCP-UI SDK: content.htmlString must be provided as a string when content.type is 'rawHtml'.''))
     else if field (content options) ''type'' = JStr ''externalUrl'' then
       if \<not> startsWith (uri options) ''ui://'' then
         Inl (Error ''MCP-UI SDK: URI must start with 'ui://' when content.type is 'externalUrl'.'')
       else
         (case field (content options) ''iframeUrl'' of
            JStr iframeUrl \<Rightarrow> Inr (iframeUrl, JStr (RESOURCE_MIME_TYPE u))
          | _ \<Rightarrow>
              Inl (Error ''MCP-UI SDK: content.iframeUrl must be provided as a string when content.type is 'externalUrl'.''))
     else
       Inl (Error (''MCP-UI SDK: Invalid content.type specified: '' @ to_String (JObj (content options)))))"

definition createUIResource :: "utils \<Rightarrow> CreateUIResourceOptions \<Rightarrow> error + jsval" where
  "createUIResource u options =
    (case content_and_mime u options of
       Inl e \<Rightarrow> Inl e
     | Inr (actualContentString, mimeType) \<Rightarrow>
        (case (if encoding options = JStr ''text'' then
                 Inr (assign [(''uri'', JStr (uri options)), (''mimeType'', mimeType),
                              (''text'', JStr actualContentString)]
                        (getAdditionalResourceProps u options))
               else if encoding options = JStr ''blob'' then
                 Inr (assign [(''uri'', JStr (uri options)), (''mimeType'', mimeType),
                              (''blob'', JStr (utf8ToBase64 u actualContentString))]
                        (getAdditionalResourceProps u options))
               else
                 Inl (Error (''MCP-UI SDK: Invalid encoding type: '' @ to_String (encoding options))))
         of
           Inl e \<Rightarrow> Inl e
         | Inr resource \<Rightarrow>
             Inr (JObj (assign [(''type'', JStr ''resource''), (''resource'', JObj resource)]
                          (case embeddedResourceProps options of None \<Rightarrow> [] | Some ps \<Rightarrow> ps)))))"


text \<open>Stand-ins for the helpers, used where the model is run on the inputs of the tests.\<close>

definition no_additional_props :: "CreateUIResourceOptions \<Rightarrow> jsobj" where
  "no_additional_props options = []"

definition unwrapped :: "string \<Rightarrow> jsval \<Rightarrow> string" where
  "unwrapped html adapters_config = html"

definition no_adapter_mime :: "jsval \<Rightarrow> jsval" where
  "no_adapter_mime adapters_config = JUndefined"

definition test_utils :: utils where
  "test_utils =
     \<lparr>getAdditionalResourceProps = no_additional_props, utf8ToBase64 = id,
      wrapHtmlWithAdapters = unwrapped, getAdapterMimeType = no_adapter_mime,
      RESOURCE_MIME_TYPE = ''text/html;profile=mcp-app''\<rparr>"

definition test_options :: "jsval \<Rightarrow> CreateUIResourceOptions" where
  "test_options enc =
     \<lparr>uri = ''ui://test-html'',
      content = [(''type'', JStr ''rawHtml''), (''htmlString'', JStr ''<p>Test</p>'')],
      encoding = enc, adapters = JUndefined, resourceProps = JUndefined,
      uiMetadata = JUndefined, metadata = JUndefined, embeddedResourceProps = None\<rparr>"

section \<open>The guest window: listeners, timers, promises\<close>

text \<open>
  \<open>sendExperimentalRequest\<close> works on the browser's state: the module-level counter
  \<open>_experimentalRequestId\<close>, the message listeners of the window, the abort listeners of
  the signals, the timers, and the promises it returns. The model passes this state
  explicitly. What the platform contributes is modelled as follows.
  \<^item> Windows, abort signals and timers are identified by numbers; \<open>window.parent\<close> and
    \<open>window\<close> do not change during a run.
  \<^item> The counter and the clock are natural numbers: the clock counts whole milliseconds,
    and the counter stays far below \<open>2^53\<close>, where JavaScript numbers are exact.
  \<^item> \<open>setTimeout\<close> is ideal: the callback runs when the clock reaches the time of the
    call plus the delay.
  \<^item> Messages and params are structured data, which \<open>postMessage\<close> always accepts.
\<close>

type_synonym window = nat
type_synonym abort_signal = nat
type_synonym timer = nat

record options =
  signal :: "abort_signal option"
  timeoutMs :: "int option"

text \<open>\<open>options?.signal\<close> and \<open>options?.timeoutMs\<close>\<close>

definition opt_signal :: "options option \<Rightarrow> abort_signal option" where
  "opt_signal opts = (case opts of None \<Rightarrow> None | Some x \<Rightarrow> signal x)"

definition opt_timeoutMs :: "options option \<Rightarrow> int option" where
  "opt_timeoutMs opts = (case opts of None \<Rightarrow> None | Some x \<Rightarrow> timeoutMs x)"

text \<open>
  The variables that the three closures of one call (\<open>handler\<close>, \<open>onAbort\<close>, the timer
  callback) share: \<open>method\<close>, \<open>options?.signal\<close>, \<open>timeoutMs\<close> and the mutable
  \<open>timeoutId\<close>. The call's \<open>id\<close> is the key under which the environment is stored.
\<close>

record call_env =
  c_method :: string
  c_signal :: "abort_signal option"
  c_timeoutMs :: int
  c_timeoutId :: "timer option"

datatype pstate = Pending | Fulfilled jsval | Rejected reason

text \<open>What \<open>sendExperimentalRequest\<close> returns: \<open>Promise.reject(e)\<close>, or the promise made by
  \<open>new Promise\<close> for the call with the given id.\<close>

datatype promise = Promise_reject reason | New_Promise nat

text \<open>Every call of a platform primitive, in program order.\<close>

datatype effect =
    AddMessageListener nat
  | RemoveMessageListener nat
  | AddAbortListener abort_signal nat
  | RemoveAbortListener abort_signal nat
  | SetTimeout timer int nat
  | ClearTimeout timer
  | PostMessage window jsval string
  | Resolve nat jsval
  | Reject nat reason

record world =
  parent :: window
  self :: window
  experimentalRequestId :: nat
  now :: nat
  message_listeners :: "nat list"
  abort_listeners :: "(abort_signal \<times> nat) list"
  aborted :: "abort_signal set"
  timers :: "(timer \<times> nat \<times> nat) list"
  next_timer :: timer
  envs :: "nat \<rightharpoonup> call_env"
  promises :: "nat \<rightharpoonup> pstate"
  trace :: "effect list"
  uncaught :: "error list"

definition init_world :: "window \<Rightarrow> window \<Rightarrow> world" where
  "init_world p w =
     \<lparr>parent = p, self = w, experimentalRequestId = 0, now = 0, message_listeners = [],
      abort_listeners = [], aborted = {}, timers = [], next_timer = 0, envs = Map.empty,
      promises = Map.empty, trace = [], uncaught = []\<rparr>"

definition DEFAULT_EXPERIMENTAL_REQUEST_TIMEOUT_MS :: int where
  "DEFAULT_EXPERIMENTAL_REQUEST_TIMEOUT_MS = 30000"

subsection \<open>Platform primitives\<close>

text \<open>\<open>window.addEventListener('message', handler)\<close> for the handler of call \<open>k\<close>; a listener
  that is already registered is not added again.\<close>

definition addEventListener_message :: "nat \<Rightarrow> world \<Rightarrow> world" where
  "addEventListener_message k s =
     s\<lparr>message_listeners :=
          (if k \<in> set (message_listeners s) then message_listeners s
           else message_listeners s @ [k]),
       trace := trace s @ [AddMessageListener k]\<rparr>"

definition removeEventListener_message :: "nat \<Rightarrow> world \<Rightarrow> world" where
  "removeEventListener_message k s =
     s\<lparr>message_listeners := removeAll k (message_listeners s),
       trace := trace s @ [RemoveMessageListener k]\<rparr>"

definition addEventListener_abort :: "abort_signal \<Rightarrow> nat \<Rightarrow> world \<Rightarrow> world" where
  "addEventListener_abort g k s =
     s\<lparr>abort_listeners :=
          (if (g, k) \<in> set (abort_listeners s) then abort_listeners s
           else abort_listeners s @ [(g, k)]),
       trace := trace s @ [AddAbortListener g k]\<rparr>"

definition removeEventListener_abort :: "abort_signal \<Rightarrow> nat \<Rightarrow> world \<Rightarrow> world" where
  "removeEventListener_abort g k s =
     s\<lparr>abort_listeners := removeAll (g, k) (abort_listeners s),
       trace := trace s @ [RemoveAbortListener g k]\<rparr>"

text \<open>\<open>setTimeout(callback of call k, delay)\<close>: a fresh timer id, due \<open>delay\<close> after now.\<close>

definition setTimeout :: "nat \<Rightarrow> int \<Rightarrow> world \<Rightarrow> timer \<times> world" where
  "setTimeout k delay s =
     (let tid = Suc (next_timer s)
      in (tid, s\<lparr>timers := timers s @ [(tid, now s + nat delay, k)], next_timer := tid,
                 trace := trace s @ [SetTimeout tid delay k]\<rparr>))"

definition clearTimeout :: "timer \<Rightarrow> world \<Rightarrow> world" where
  "clearTimeout tid s =
     s\<lparr>timers := filter (\<lambda>t. fst t \<noteq> tid) (timers s),
       trace := trace s @ [ClearTimeout tid]\<rparr>"

definition postMessage :: "window \<Rightarrow> jsval \<Rightarrow> string \<Rightarrow> world \<Rightarrow> world" where
  "postMessage w d targetOrigin s = s\<lparr>trace := trace s @ [PostMessage w d targetOrigin]\<rparr>"

text \<open>The resolving functions of the promise of call \<open>k\<close>: only the first call of either
  changes the promise.\<close>

definition resolve :: "nat \<Rightarrow> jsval \<Rightarrow> world \<Rightarrow> world" where
  "resolve k v s =
     s\<lparr>promises := (if promises s k = Some Pending then (promises s)(k \<mapsto> Fulfilled v)
                     else promises s),
       trace := trace s @ [Resolve k v]\<rparr>"

definition reject :: "nat \<Rightarrow> reason \<Rightarrow> world \<Rightarrow> world" where
  "reject k r s =
     s\<lparr>promises := (if promises s k = Some Pending then (promises s)(k \<mapsto> Rejected r)
                     else promises s),
       trace := trace s @ [Reject k r]\<rparr>"

text \<open>An exception that leaves an event listener is reported, not propagated.\<close>

definition report :: "error \<Rightarrow> world \<Rightarrow> world" where
  "report e s = s\<lparr>uncaught := uncaught s @ [e]\<rparr>"

subsection \<open>sendExperimentalRequest\<close>

definition dquote :: char where
  "dquote = CHR 0x22"

definition aborted_error :: "string \<Rightarrow> reason" where
  "aborted_error method =
     Thrown (Error (''Experimental request '' @ [dquote] @ method @ [dquote] @ '' was aborted''))"

definition timeout_error :: "string \<Rightarrow> int \<Rightarrow> reason" where
  "timeout_error method ms =
     Thrown (Error (''Experimental request '' @ [dquote] @ method @ [dquote]
                    @ '' timed out after '' @ show_int ms @ ''ms''))"

definition cleanup :: "nat \<Rightarrow> call_env \<Rightarrow> world \<Rightarrow> world" where
  "cleanup k e s =
     (let s1 = removeEventListener_message k s;
          s2 = (case c_timeoutId e of Some tid \<Rightarrow> clearTimeout tid s1 | None \<Rightarrow> s1)
      in (case c_signal e of Some g \<Rightarrow> removeEventListener_abort g k s2 | None \<Rightarrow> s2))"

definition handler :: "nat \<Rightarrow> call_env \<Rightarrow> window \<Rightarrow> jsval \<Rightarrow> world \<Rightarrow> world" where
  "handler k e src d s =
     (if src \<noteq> parent s then s
      else if get_opt d ''jsonrpc'' = JStr ''2.0'' \<and> get_opt d ''id'' = JNum (int k) then
        (let s1 = cleanup k e s
         in case get_prop d ''error'' of
              Inl err \<Rightarrow> report err s1
            | Inr er \<Rightarrow>
                if truthy er then reject k (Value er) s1
                else (case get_prop d ''result'' of
                        Inl err \<Rightarrow> report err s1
                      | Inr res \<Rightarrow> resolve k res s1))
      else s)"

definition onAbort :: "nat \<Rightarrow> call_env \<Rightarrow> world \<Rightarrow> world" where
  "onAbort k e s = reject k (aborted_error (c_method e)) (cleanup k e s)"

definition timeout_callback :: "nat \<Rightarrow> call_env \<Rightarrow> world \<Rightarrow> world" where
  "timeout_callback k e s =
     reject k (timeout_error (c_method e) (c_timeoutMs e)) (cleanup k e s)"

definition envelope :: "nat \<Rightarrow> string \<Rightarrow> jsval \<Rightarrow> jsval" where
  "envelope k method params =
     JObj (assign [(''jsonrpc'', JStr ''2.0''), (''id'', JNum (int k)), (''method'', JStr method)]
             (if params \<noteq> JUndefined then [(''params'', params)] else []))"

text \<open>The executor passed to \<open>new Promise\<close>.\<close>

definition executor :: "nat \<Rightarrow> string \<Rightarrow> jsval \<Rightarrow> options option \<Rightarrow> int \<Rightarrow> world \<Rightarrow> world" where
  "executor k method params opts ms s =
     (let e = \<lparr>c_method = method, c_signal = opt_signal opts, c_timeoutMs = ms,
               c_timeoutId = None\<rparr>;
          s0 = s\<lparr>envs := (envs s)(k \<mapsto> e)\<rparr>
      in if (case opt_signal opts of Some g \<Rightarrow> g \<in> aborted s0 | None \<Rightarrow> False) then
           reject k (aborted_error method) s0
         else
           (let s1 = (case opt_signal opts of Some g \<Rightarrow> addEventListener_abort g k s0
                      | None \<Rightarrow> s0);
                s2 = addEventListener_message k s1;
                s3 = (if ms > 0 then
                        (case setTimeout k ms s2 of
                           (tid, s') \<Rightarrow> s'\<lparr>envs := (envs s')(k \<mapsto> e\<lparr>c_timeoutId := Some tid\<rparr>)\<rparr>)
                      else s2)
            in postMessage (parent s3) (envelope k method params) ''*'' s3))"

definition sendExperimentalRequest ::
  "string \<Rightarrow> jsval \<Rightarrow> options option \<Rightarrow> world \<Rightarrow> promise \<times> world" where
  "sendExperimentalRequest method params opts s =
     (if parent s = self s then
        (Promise_reject
           (Thrown (Error ''sendExperimentalRequest must be called from within an iframe'')), s)
      else
        (let k = Suc (experimentalRequestId s);
             s1 = s\<lparr>experimentalRequestId := k\<rparr>;
             ms = (case opt_timeoutMs opts of Some t \<Rightarrow> t
                   | None \<Rightarrow> DEFAULT_EXPERIMENTAL_REQUEST_TIMEOUT_MS)
         in (New_Promise k,
             executor k method params opts ms (s1\<lparr>promises := (promises s1)(k \<mapsto> Pending)\<rparr>))))"

subsection \<open>Events\<close>

text \<open>
  What happens to the guest window between calls: the program calls
  \<open>sendExperimentalRequest\<close>, a message event is dispatched on the window, an
  \<open>AbortController\<close> aborts its signal, the clock advances.
\<close>

datatype event =
    Send string jsval "options option"
  | Message window jsval
  | Abort abort_signal
  | Advance nat

text \<open>A message event runs the listeners registered when the dispatch starts, in order,
  except those removed in the meantime.\<close>

definition run_message_listener :: "window \<Rightarrow> jsval \<Rightarrow> nat \<Rightarrow> world \<Rightarrow> world" where
  "run_message_listener src d k s =
     (if k \<in> set (message_listeners s) then
        (case envs s k of Some e \<Rightarrow> handler k e src d s | None \<Rightarrow> s)
      else s)"

definition dispatch_message :: "window \<Rightarrow> jsval \<Rightarrow> world \<Rightarrow> world" where
  "dispatch_message src d s = fold (run_message_listener src d) (message_listeners s) s"

text \<open>\<open>controller.abort()\<close>: nothing on a signal already aborted; otherwise the flag is
  set and the signal's abort listeners run.\<close>

definition run_abort_listener :: "abort_signal \<times> nat \<Rightarrow> world \<Rightarrow> world" where
  "run_abort_listener l s =
     (if l \<in> set (abort_listeners s) then
        (case envs s (snd l) of Some e \<Rightarrow> onAbort (snd l) e s | None \<Rightarrow> s)
      else s)"

definition abort :: "abort_signal \<Rightarrow> world \<Rightarrow> world" where
  "abort g s =
     (if g \<in> aborted s then s
      else fold run_abort_listener (filter (\<lambda>l. fst l = g) (abort_listeners s))
             (s\<lparr>aborted := insert g (aborted s)\<rparr>))"

text \<open>A timer that is still set fires: it leaves the timer list and its callback runs.\<close>

definition fire :: "timer \<times> nat \<times> nat \<Rightarrow> world \<Rightarrow> world" where
  "fire t s =
     (if t \<in> set (timers s) then
        (let s1 = s\<lparr>timers := filter (\<lambda>t'. fst t' \<noteq> fst t) (timers s)\<rparr>
         in case envs s1 (snd (snd t)) of
              Some e \<Rightarrow> timeout_callback (snd (snd t)) e s1
            | None \<Rightarrow> s1)
      else s)"

text \<open>The clock advances by \<open>d\<close>: the timers due by then fire in the order of their due
  times, timers with the same due time in the order they were set.\<close>

definition advance :: "nat \<Rightarrow> world \<Rightarrow> world" where
  "advance d s =
     (let target = now s + d;
          due = sort_key (\<lambda>t. fst (snd t)) (filter (\<lambda>t. fst (snd t) \<le> target) (timers s))
      in (fold fire due s)\<lparr>now := target\<rparr>)"

fun step :: "event \<Rightarrow> world \<Rightarrow> world" where
  "step (Send method params opts) s = snd (sendExperimentalRequest method params opts s)"
| "step (Message src d) s = dispatch_message src d s"
| "step (Abort g) s = abort g s"
| "step (Advance d) s = advance d s"

definition run :: "event list \<Rightarrow> world \<Rightarrow> world" where
  "run es s = fold step es s"

subsection \<open>Observations\<close>

text \<open>The messages posted, in order.\<close>

fun posted :: "effect list \<Rightarrow> (window \<times> jsval \<times> string) list" where
  "posted [] = []"
| "posted (PostMessage w d targetOrigin # es) = (w, d, targetOrigin) # posted es"
| "posted (_ # es) = posted es"

text \<open>The calls of \<open>resolve\<close> and \<open>reject\<close> of the promise of call \<open>k\<close>, in order.\<close>

fun settles :: "nat \<Rightarrow> effect \<Rightarrow> bool" where
  "settles k (Resolve k' v) = (k' = k)"
| "settles k (Reject k' r) = (k' = k)"
| "settles k _ = False"

definition settlements :: "nat \<Rightarrow> world \<Rightarrow> effect list" where
  "settlements k s = filter (settles k) (trace s)"

section \<open>Auxiliary notions\<close>

text \<open>Notions used to state and prove the properties; they are not part of the program.\<close>

text \<open>The three callbacks settle their own call after the cleanup.\<close>

definition finish :: "nat \<Rightarrow> call_env \<Rightarrow> pstate \<Rightarrow> world \<Rightarrow> world" where
  "finish k e p s =
     (case p of Rejected r \<Rightarrow> reject k r (cleanup k e s)
      | Fulfilled v \<Rightarrow> resolve k v (cleanup k e s)
      | Pending \<Rightarrow> s)"

text \<open>A registered message listener belongs to a call that was made, is not settled and has
  its closure environment.\<close>

definition inv_listeners :: "world \<Rightarrow> bool" where
  "inv_listeners s \<longleftrightarrow>
     (\<forall>k \<in> set (message_listeners s).
        1 \<le> k \<and> k \<le> experimentalRequestId s \<and> settlements k s = []
        \<and> promises s k = Some Pending \<and> envs s k \<noteq> None)"

text \<open>An abort listener belongs to a pending call, on the signal of that call.\<close>

definition inv_abort :: "world \<Rightarrow> bool" where
  "inv_abort s \<longleftrightarrow>
     (\<forall>l \<in> set (abort_listeners s).
        snd l \<in> set (message_listeners s)
        \<and> (\<exists>e. envs s (snd l) = Some e \<and> c_signal e = Some (fst l)))"

text \<open>Between events, no listener waits on a signal that has aborted, and no timer is
  overdue.\<close>

definition inv_flags :: "world \<Rightarrow> bool" where
  "inv_flags s \<longleftrightarrow> (\<forall>l \<in> set (abort_listeners s). fst l \<notin> aborted s)"

definition inv_clock :: "world \<Rightarrow> bool" where
  "inv_clock s \<longleftrightarrow> (\<forall>t \<in> set (timers s). now s < fst (snd t))"

text \<open>A timer belongs to a pending call, whose \<open>timeoutId\<close> it is.\<close>

definition inv_timers :: "world \<Rightarrow> bool" where
  "inv_timers s \<longleftrightarrow>
     (\<forall>t \<in> set (timers s).
        snd (snd t) \<in> set (message_listeners s) \<and> fst t \<le> next_timer s
        \<and> (\<exists>e. envs s (snd (snd t)) = Some e \<and> c_timeoutId e = Some (fst t)))"

text \<open>No promise is settled twice; a pending promise has its listener.\<close>

definition inv_settled :: "world \<Rightarrow> bool" where
  "inv_settled s \<longleftrightarrow>
     (\<forall>k. length (settlements k s) \<le> 1) \<and>
     (\<forall>k. experimentalRequestId s < k \<longrightarrow> settlements k s = []) \<and>
     (\<forall>k. promises s k = Some Pending \<longrightarrow> k \<in> set (message_listeners s)) \<and>
     (\<forall>k. settlements k s \<noteq> [] \<longrightarrow> (\<exists>q. promises s k = Some q \<and> q \<noteq> Pending))"

text \<open>A pending call has its abort listener and its timer, when it asked for them.\<close>

definition inv_registered :: "world \<Rightarrow> bool" where
  "inv_registered s \<longleftrightarrow>
     (\<forall>k \<in> set (message_listeners s). \<forall>e. envs s k = Some e \<longrightarrow>
        (\<forall>g. c_signal e = Some g \<longrightarrow> (g, k) \<in> set (abort_listeners s)) \<and>
        (0 < c_timeoutMs e \<longrightarrow> (\<exists>tid due. c_timeoutId e = Some tid \<and> (tid, due, k) \<in> set (timers s))) \<and>
        (c_timeoutMs e \<le> 0 \<longrightarrow> c_timeoutId e = None))"

text \<open>Timer ids are not shared between calls.\<close>

definition inv_ids :: "world \<Rightarrow> bool" where
  "inv_ids s \<longleftrightarrow>
     (\<forall>k e tid. envs s k = Some e \<and> c_timeoutId e = Some tid \<longrightarrow> tid \<le> next_timer s) \<and>
     (\<forall>k k' e e' tid. envs s k = Some e \<and> c_timeoutId e = Some tid \<and>
         envs s k' = Some e' \<and> c_timeoutId e' = Some tid \<longrightarrow> k = k')"

text \<open>The promise of a call and the record of the calls of its resolving functions agree.\<close>

definition inv_record :: "world \<Rightarrow> bool" where
  "inv_record s \<longleftrightarrow>
     (\<forall>k. settlements k s =
        (case promises s k of Some (Fulfilled v) \<Rightarrow> [Resolve k v]
         | Some (Rejected r) \<Rightarrow> [Reject k r] | _ \<Rightarrow> [])) \<and>
     (\<forall>k. promises s k \<noteq> None \<longleftrightarrow> 1 \<le> k \<and> k \<le> experimentalRequestId s)"

text \<open>What holds at every moment, also while an event is being dispatched.\<close>

definition inv :: "world \<Rightarrow> bool" where
  "inv s \<longleftrightarrow> inv_listeners s \<and> inv_abort s \<and> inv_timers s \<and> inv_settled s
     \<and> inv_registered s \<and> inv_ids s \<and> inv_record s"

text \<open>What holds between events.\<close>

definition stable :: "world \<Rightarrow> bool" where
  "stable s \<longleftrightarrow> inv s \<and> inv_flags s \<and> inv_clock s"

text \<open>\<open>options?.timeoutMs ?? DEFAULT_EXPERIMENTAL_REQUEST_TIMEOUT_MS\<close>\<close>

definition effective_timeout :: "options option \<Rightarrow> int" where
  "effective_timeout opts =
     (case opt_timeoutMs opts of Some t \<Rightarrow> t | None \<Rightarrow> DEFAULT_EXPERIMENTAL_REQUEST_TIMEOUT_MS)"

text \<open>\<open>options?.signal?.aborted\<close> when the call is made.\<close>

definition aborted_at_call :: "options option \<Rightarrow> world \<Rightarrow> bool" where
  "aborted_at_call opts s = (case opt_signal opts of Some g \<Rightarrow> g \<in> aborted s | None \<Rightarrow> False)"

text \<open>The state after a call.\<close>

definition sent :: "string \<Rightarrow> jsval \<Rightarrow> options option \<Rightarrow> world \<Rightarrow> world" where
  "sent m p opts s = snd (sendExperimentalRequest m p opts s)"

text \<open>What a response envelope settles the promise with.\<close>

definition outcome :: "jsval \<Rightarrow> pstate" where
  "outcome d = (if truthy (get_opt d ''error'') then Rejected (Value (get_opt d ''error''))
                else Fulfilled (get_opt d ''result''))"

text \<open>The test of the message handler of call \<open>k\<close>.\<close>

definition matches :: "nat \<Rightarrow> jsval \<Rightarrow> bool" where
  "matches k d \<longleftrightarrow> get_opt d ''jsonrpc'' = JStr ''2.0'' \<and> get_opt d ''id'' = JNum (int k)"

text \<open>The content string of the options: \<open>htmlString\<close> for raw HTML, \<open>iframeUrl\<close> for an
  external URL.\<close>

definition content_string :: "CreateUIResourceOptions \<Rightarrow> jsval" where
  "content_string options =
     (if field (content options) ''type'' = JStr ''rawHtml''
      then field (content options) ''htmlString''
      else field (content options) ''iframeUrl'')"

definition supported_content :: "CreateUIResourceOptions \<Rightarrow> bool" where
  "supported_content options \<longleftrightarrow>
     field (content options) ''type'' = JStr ''rawHtml''
     \<or> field (content options) ''type'' = JStr ''externalUrl''"

text \<open>The spread properties leave the keys written by \<open>createUIResource\<close> alone.\<close>

definition keeps_keys :: "utils \<Rightarrow> CreateUIResourceOptions \<Rightarrow> bool" where
  "keeps_keys u options \<longleftrightarrow>
     ''uri'' \<notin> fst ` set (getAdditionalResourceProps u options)
     \<and> (case embeddedResourceProps options of None \<Rightarrow> True
        | Some ps \<Rightarrow> ''type'' \<notin> fst ` set ps \<and> ''resource'' \<notin> fst ` set ps)"

text \<open>The ids that the calls of \<open>sendExperimentalRequest\<close> in a sequence of events hand out,
  in order.\<close>

fun issued :: "event list \<Rightarrow> world \<Rightarrow> nat list" where
  "issued [] s = []"
| "issued (Send m p opts # es) s =
     (case fst (sendExperimentalRequest m p opts s) of
        New_Promise k \<Rightarrow> k # issued es (step (Send m p opts) s)
      | Promise_reject r \<Rightarrow> issued es (step (Send m p opts) s))"
| "issued (ev # es) s = issued es (step ev s)"

text \<open>The windows and messages of the test suite: a guest window (window 1) framed by a host
  (window 7), a top-level window, and the host's responses.\<close>

definition guest :: world where
  "guest = init_world 7 1"

definition top_level :: world where
  "top_level = init_world 1 1"

definition response :: "int \<Rightarrow> jsval \<Rightarrow> jsval" where
  "response i res = JObj [(''jsonrpc'', JStr ''2.0''), (''id'', JNum i), (''result'', res)]"

definition error_response :: "int \<Rightarrow> jsval \<Rightarrow> jsval" where
  "error_response i err = JObj [(''jsonrpc'', JStr ''2.0''), (''id'', JNum i), (''error'', err)]"

definition method_not_found :: jsval where
  "method_not_found = JObj [(''code'', JNum (- 32601)), (''message'', JStr ''Method not found'')]"

definition with_timeout :: "int \<Rightarrow> options option" where
  "with_timeout ms = Some \<lparr>signal = None, timeoutMs = Some ms\<rparr>"

definition with_signal :: "abort_signal \<Rightarrow> int \<Rightarrow> options option" where
  "with_signal g ms = Some \<lparr>signal = Some g, timeoutMs = Some ms\<rparr>"

text \<open>The call \<open>k\<close>, made earlier with the closure environment \<open>e\<close>, is followed through a
  run.\<close>

definition tracked :: "nat \<Rightarrow> call_env \<Rightarrow> world \<Rightarrow> bool" where
  "tracked k e s \<longleftrightarrow>
     stable s \<and> 1 \<le> k \<and> k \<le> experimentalRequestId s \<and> envs s k = Some e"



section \<open>Object literals\<close>

lemma map_of_assign:
  "map_of (assign obj props) k =
     (case map_of (rev props) k of Some v \<Rightarrow> Some v | None \<Rightarrow> map_of obj k)"
  unfolding assign_def
proof (induction props arbitrary: obj)
  case Nil
  show ?case by simp
next
  case (Cons p ps)
  obtain a b where p: "p = (a, b)" by (cases p)
  show ?case
    by (simp add: Cons.IH p update_conv' map_add_def split: option.splits)
qed

lemma field_assign_other:
  "k \<notin> fst ` set props \<Longrightarrow> field (assign obj props) k = field obj k"
  by (simp add: field_def map_of_assign map_of_eq_None_iff[THEN iffD2] split: option.splits)

section \<open>Effects of the primitives and of the callbacks\<close>

lemma posted_append [simp]: "posted (xs @ ys) = posted xs @ posted ys"
  by (induction xs rule: posted.induct) simp_all

lemma settlements_append [simp]:
  "settlements k (s\<lparr>trace := trace s @ es\<rparr>) = settlements k s @ filter (settles k) es"
  by (simp add: settlements_def)

lemma cleanup_fields [simp]:
  "parent (cleanup k e s) = parent s"
  "self (cleanup k e s) = self s"
  "experimentalRequestId (cleanup k e s) = experimentalRequestId s"
  "now (cleanup k e s) = now s"
  "aborted (cleanup k e s) = aborted s"
  "next_timer (cleanup k e s) = next_timer s"
  "envs (cleanup k e s) = envs s"
  "promises (cleanup k e s) = promises s"
  "uncaught (cleanup k e s) = uncaught s"
  "message_listeners (cleanup k e s) = removeAll k (message_listeners s)"
  "abort_listeners (cleanup k e s) =
     (case c_signal e of Some g \<Rightarrow> removeAll (g, k) (abort_listeners s) | None \<Rightarrow> abort_listeners s)"
  "timers (cleanup k e s) =
     (case c_timeoutId e of Some tid \<Rightarrow> filter (\<lambda>t. fst t \<noteq> tid) (timers s) | None \<Rightarrow> timers s)"
  "settlements k' (cleanup k e s) = settlements k' s"
  "posted (trace (cleanup k e s)) = posted (trace s)"
  by (simp_all add: cleanup_def removeEventListener_message_def clearTimeout_def
      removeEventListener_abort_def settlements_def Let_def split: option.splits)

lemma reject_fields [simp]:
  "parent (reject k r s) = parent s"
  "self (reject k r s) = self s"
  "experimentalRequestId (reject k r s) = experimentalRequestId s"
  "now (reject k r s) = now s"
  "aborted (reject k r s) = aborted s"
  "next_timer (reject k r s) = next_timer s"
  "envs (reject k r s) = envs s"
  "uncaught (reject k r s) = uncaught s"
  "message_listeners (reject k r s) = message_listeners s"
  "abort_listeners (reject k r s) = abort_listeners s"
  "timers (reject k r s) = timers s"
  "promises (reject k r s) =
     (if promises s k = Some Pending then (promises s)(k \<mapsto> Rejected r) else promises s)"
  "settlements k' (reject k r s) = settlements k' s @ (if k' = k then [Reject k r] else [])"
  "posted (trace (reject k r s)) = posted (trace s)"
  by (simp_all add: reject_def settlements_def)

lemma resolve_fields [simp]:
  "parent (resolve k v s) = parent s"
  "self (resolve k v s) = self s"
  "experimentalRequestId (resolve k v s) = experimentalRequestId s"
  "now (resolve k v s) = now s"
  "aborted (resolve k v s) = aborted s"
  "next_timer (resolve k v s) = next_timer s"
  "envs (resolve k v s) = envs s"
  "uncaught (resolve k v s) = uncaught s"
  "message_listeners (resolve k v s) = message_listeners s"
  "abort_listeners (resolve k v s) = abort_listeners s"
  "timers (resolve k v s) = timers s"
  "promises (resolve k v s) =
     (if promises s k = Some Pending then (promises s)(k \<mapsto> Fulfilled v) else promises s)"
  "settlements k' (resolve k v s) = settlements k' s @ (if k' = k then [Resolve k v] else [])"
  "posted (trace (resolve k v s)) = posted (trace s)"
  by (simp_all add: resolve_def settlements_def)

lemma get_prop_Inl: "get_prop d k = Inl err \<Longrightarrow> d = JUndefined \<or> d = JNull"
  by (cases d) simp_all

lemma handler_cases:
  "handler k e src d s =
     (if src = parent s \<and> get_opt d ''jsonrpc'' = JStr ''2.0'' \<and> get_opt d ''id'' = JNum (int k)
      then finish k e (if truthy (get_opt d ''error'') then Rejected (Value (get_opt d ''error''))
                       else Fulfilled (get_opt d ''result'')) s
      else s)"
  by (cases d) (simp_all add: handler_def finish_def Let_def)

lemma onAbort_finish: "onAbort k e s = finish k e (Rejected (aborted_error (c_method e))) s"
  by (simp add: onAbort_def finish_def)

lemma timeout_callback_finish:
  "timeout_callback k e s = finish k e (Rejected (timeout_error (c_method e) (c_timeoutMs e))) s"
  by (simp add: timeout_callback_def finish_def)

lemma finish_inv_ids: "inv_ids s \<Longrightarrow> inv_ids (finish k e p s)"
  by (cases p) (simp_all add: inv_ids_def finish_def)

lemma finish_inv_listeners:
  "inv_listeners s \<Longrightarrow> p \<noteq> Pending \<Longrightarrow> inv_listeners (finish k e p s)"
  by (cases p) (auto simp: inv_listeners_def finish_def)

lemma finish_inv_abort:
  "inv_abort s \<Longrightarrow> envs s k = Some e \<Longrightarrow> inv_abort (finish k e p s)"
  by (cases p) (auto simp: inv_abort_def finish_def split: option.splits)

lemma finish_inv_timers:
  "inv_timers s \<Longrightarrow> envs s k = Some e \<Longrightarrow> inv_timers (finish k e p s)"
  by (cases p) (auto simp: inv_timers_def finish_def split: option.splits)

lemma finish_inv_settled:
  "inv_settled s \<Longrightarrow> inv_listeners s \<Longrightarrow> k \<in> set (message_listeners s) \<Longrightarrow> p \<noteq> Pending
   \<Longrightarrow> inv_settled (finish k e p s)"
  by (cases p) (auto simp: inv_settled_def inv_listeners_def finish_def)

lemma finish_inv_registered:
  assumes "inv_registered s" "inv_abort s" "inv_timers s" "inv_ids s" "envs s k = Some e"
  shows "inv_registered (finish k e p s)"
proof -
  have other: "tid \<noteq> tid'"
    if "k' \<noteq> k" "envs s k' = Some e'" "c_timeoutId e' = Some tid" "c_timeoutId e = Some tid'"
    for k' e' tid tid'
    using that assms(4,5) unfolding inv_ids_def by blast
  have "inv_registered (cleanup k e s)"
    unfolding inv_registered_def
  proof (intro ballI allI impI)
    fix k' e'
    assume k': "k' \<in> set (message_listeners (cleanup k e s))" and e': "envs (cleanup k e s) k' = Some e'"
    then have ne: "k' \<noteq> k" and mem: "k' \<in> set (message_listeners s)" and env: "envs s k' = Some e'"
      by auto
    from assms(1) mem env have reg:
      "\<forall>g. c_signal e' = Some g \<longrightarrow> (g, k') \<in> set (abort_listeners s)"
      "0 < c_timeoutMs e' \<longrightarrow> (\<exists>tid due. c_timeoutId e' = Some tid \<and> (tid, due, k') \<in> set (timers s))"
      "c_timeoutMs e' \<le> 0 \<longrightarrow> c_timeoutId e' = None"
      unfolding inv_registered_def by blast+
    show "(\<forall>g. c_signal e' = Some g \<longrightarrow> (g, k') \<in> set (abort_listeners (cleanup k e s))) \<and>
          (0 < c_timeoutMs e' \<longrightarrow>
             (\<exists>tid due. c_timeoutId e' = Some tid \<and> (tid, due, k') \<in> set (timers (cleanup k e s)))) \<and>
          (c_timeoutMs e' \<le> 0 \<longrightarrow> c_timeoutId e' = None)"
      using reg ne other[OF ne env] by (auto split: option.splits)
  qed
  then show ?thesis
    using assms(1) by (cases p) (simp_all add: finish_def inv_registered_def)
qed

lemma finish_inv_record:
  "inv_record s \<Longrightarrow> inv_listeners s \<Longrightarrow> k \<in> set (message_listeners s) \<Longrightarrow> p \<noteq> Pending
   \<Longrightarrow> inv_record (finish k e p s)"
  by (cases p) (auto simp: inv_record_def inv_listeners_def finish_def split: option.splits pstate.splits)

lemma finish_inv:
  assumes "inv s" "k \<in> set (message_listeners s)" "envs s k = Some e" "p \<noteq> Pending"
  shows "inv (finish k e p s)"
  using assms unfolding inv_def
  by (simp add: finish_inv_listeners finish_inv_abort finish_inv_timers finish_inv_settled
      finish_inv_registered finish_inv_ids finish_inv_record)

lemma sent_top_level: "parent s = self s \<Longrightarrow> sent m p opts s = s"
  by (simp add: sent_def sendExperimentalRequest_def)

lemma sent_aborted_fields:
  assumes "parent s \<noteq> self s" "aborted_at_call opts s"
  shows
  "parent (sent m p opts s) = parent s"
  "self (sent m p opts s) = self s"
  "experimentalRequestId (sent m p opts s) = Suc (experimentalRequestId s)"
  "now (sent m p opts s) = now s"
  "aborted (sent m p opts s) = aborted s"
  "next_timer (sent m p opts s) = next_timer s"
  "uncaught (sent m p opts s) = uncaught s"
  "message_listeners (sent m p opts s) = message_listeners s"
  "abort_listeners (sent m p opts s) = abort_listeners s"
  "timers (sent m p opts s) = timers s"
  "envs (sent m p opts s) = (envs s)(Suc (experimentalRequestId s) \<mapsto>
      \<lparr>c_method = m, c_signal = opt_signal opts, c_timeoutMs = effective_timeout opts,
       c_timeoutId = None\<rparr>)"
  "promises (sent m p opts s) =
     (promises s)(Suc (experimentalRequestId s) \<mapsto> Rejected (aborted_error m))"
  "trace (sent m p opts s) = trace s @ [Reject (Suc (experimentalRequestId s)) (aborted_error m)]"
  using assms
  by (simp_all add: sent_def sendExperimentalRequest_def executor_def reject_def Let_def
      aborted_at_call_def effective_timeout_def split: option.splits)

lemma sent_fields:
  assumes "parent s \<noteq> self s" "\<not> aborted_at_call opts s"
  shows
  "parent (sent m p opts s) = parent s"
  "self (sent m p opts s) = self s"
  "experimentalRequestId (sent m p opts s) = Suc (experimentalRequestId s)"
  "now (sent m p opts s) = now s"
  "aborted (sent m p opts s) = aborted s"
  "next_timer (sent m p opts s) =
     (if 0 < effective_timeout opts then Suc (next_timer s) else next_timer s)"
  "uncaught (sent m p opts s) = uncaught s"
  "message_listeners (sent m p opts s) =
     (if Suc (experimentalRequestId s) \<in> set (message_listeners s) then message_listeners s
      else message_listeners s @ [Suc (experimentalRequestId s)])"
  "abort_listeners (sent m p opts s) =
     (case opt_signal opts of None \<Rightarrow> abort_listeners s
      | Some g \<Rightarrow> if (g, Suc (experimentalRequestId s)) \<in> set (abort_listeners s)
                  then abort_listeners s
                  else abort_listeners s @ [(g, Suc (experimentalRequestId s))])"
  "timers (sent m p opts s) =
     (if 0 < effective_timeout opts
      then timers s @ [(Suc (next_timer s), now s + nat (effective_timeout opts),
                        Suc (experimentalRequestId s))]
      else timers s)"
  "envs (sent m p opts s) = (envs s)(Suc (experimentalRequestId s) \<mapsto>
      \<lparr>c_method = m, c_signal = opt_signal opts, c_timeoutMs = effective_timeout opts,
       c_timeoutId = (if 0 < effective_timeout opts then Some (Suc (next_timer s)) else None)\<rparr>)"
  "promises (sent m p opts s) = (promises s)(Suc (experimentalRequestId s) \<mapsto> Pending)"
  "trace (sent m p opts s) =
     trace s
     @ (case opt_signal opts of None \<Rightarrow> []
        | Some g \<Rightarrow> [AddAbortListener g (Suc (experimentalRequestId s))])
     @ [AddMessageListener (Suc (experimentalRequestId s))]
     @ (if 0 < effective_timeout opts
        then [SetTimeout (Suc (next_timer s)) (effective_timeout opts) (Suc (experimentalRequestId s))]
        else [])
     @ [PostMessage (parent s) (envelope (Suc (experimentalRequestId s)) m p) ''*'']"
  using assms
  by (simp_all add: sent_def sendExperimentalRequest_def executor_def Let_def
      addEventListener_abort_def addEventListener_message_def setTimeout_def postMessage_def
      aborted_at_call_def effective_timeout_def split: option.splits)

lemma fresh_id:
  assumes "inv s"
  shows "Suc (experimentalRequestId s) \<notin> set (message_listeners s)"
    and "(g, Suc (experimentalRequestId s)) \<notin> set (abort_listeners s)"
    and "(tid, due, Suc (experimentalRequestId s)) \<notin> set (timers s)"
    and "settlements (Suc (experimentalRequestId s)) s = []"
proof -
  show a: "Suc (experimentalRequestId s) \<notin> set (message_listeners s)"
    using assms unfolding inv_def inv_listeners_def by auto
  show "(g, Suc (experimentalRequestId s)) \<notin> set (abort_listeners s)"
    using assms a unfolding inv_def inv_abort_def by force
  show "(tid, due, Suc (experimentalRequestId s)) \<notin> set (timers s)"
    using assms a unfolding inv_def inv_timers_def by force
  show "settlements (Suc (experimentalRequestId s)) s = []"
    using assms unfolding inv_def inv_settled_def by simp
qed

lemma settlements_trace_append:
  "trace s' = trace s @ es \<Longrightarrow> settlements k s' = settlements k s @ filter (settles k) es"
  by (simp add: settlements_def)

lemma sent_aborted_inv:
  assumes "inv s" "parent s \<noteq> self s" "aborted_at_call opts s"
  shows "inv (sent m p opts s)"
proof -
  note f = sent_aborted_fields[OF assms(2,3)]
  note fr = fresh_id[OF assms(1)]
  have st: "settlements k (sent m p opts s) =
      settlements k s @ (if k = Suc (experimentalRequestId s) then [Reject k (aborted_error m)] else [])" for k
    using settlements_trace_append[OF f(13)] by auto
  have 1: "inv_listeners (sent m p opts s)"
    using assms(1) fr(1) unfolding inv_def inv_listeners_def by (auto simp: f st)
  have 2: "inv_abort (sent m p opts s)"
    using assms(1) fr(1) unfolding inv_def inv_abort_def by (auto simp: f)
  have 3: "inv_timers (sent m p opts s)"
    using assms(1) fr(1) unfolding inv_def inv_timers_def by (auto simp: f)
  have 4: "inv_settled (sent m p opts s)"
    using assms(1) fr(4) unfolding inv_def inv_settled_def by (auto simp: f st)
  have 5: "inv_registered (sent m p opts s)"
    using assms(1) fr(1) unfolding inv_def inv_registered_def by (auto simp: f)
  have 6: "inv_ids (sent m p opts s)"
    using assms(1) unfolding inv_def inv_ids_def by (auto simp: f)
  have 7: "inv_record (sent m p opts s)"
    using assms(1) fr(4) unfolding inv_def inv_record_def by (auto simp: f st)
  show ?thesis unfolding inv_def using 1 2 3 4 5 6 7 by simp
qed

lemma sent_pending_inv:
  assumes "inv s" "parent s \<noteq> self s" "\<not> aborted_at_call opts s"
  shows "inv (sent m p opts s)"
proof -
  note f = sent_fields[OF assms(2,3)]
  note fr = fresh_id[OF assms(1)]
  have st: "settlements k (sent m p opts s) = settlements k s" for k
    using settlements_trace_append[OF f(13)] by (auto split: option.splits)
  have nab: "opt_signal opts = Some g \<Longrightarrow> g \<notin> aborted s" for g
    using assms(3) by (simp add: aborted_at_call_def)
  have 1: "inv_listeners (sent m p opts s)"
    using assms(1) fr(1,4) unfolding inv_def inv_listeners_def by (auto simp: f st)
  have 2: "inv_abort (sent m p opts s)"
    using assms(1) fr(1,2) nab unfolding inv_def inv_abort_def
    by (auto simp: f split: option.splits)
  have 3: "inv_timers (sent m p opts s)"
    using assms(1) fr(1,3) unfolding inv_def inv_timers_def
    by (auto simp: f split: option.splits)
  have 4: "inv_settled (sent m p opts s)"
    using assms(1) fr(4) unfolding inv_def inv_settled_def by (auto simp: f st)
  have 5: "inv_registered (sent m p opts s)"
    using assms(1) fr(1) unfolding inv_def inv_registered_def
    by (auto simp: f split: option.splits)
  have bound: "tid \<le> next_timer s" if "envs s k = Some e" "c_timeoutId e = Some tid" for k e tid
    using assms(1) that unfolding inv_def inv_ids_def by blast
  have uniq: "k = k'"
    if "envs s k = Some e" "c_timeoutId e = Some tid" "envs s k' = Some e'" "c_timeoutId e' = Some tid"
    for k k' e e' tid
    using assms(1) that unfolding inv_def inv_ids_def by blast
  have 6: "inv_ids (sent m p opts s)"
    unfolding inv_ids_def
  proof (intro conjI allI impI; elim conjE)
    fix k e tid
    assume "envs (sent m p opts s) k = Some e" "c_timeoutId e = Some tid"
    then show "tid \<le> next_timer (sent m p opts s)"
      using bound[of k e tid] by (auto simp: f split: if_splits)
  next
    fix k k' e e' tid
    assume "envs (sent m p opts s) k = Some e" "c_timeoutId e = Some tid"
      "envs (sent m p opts s) k' = Some e'" "c_timeoutId e' = Some tid"
    then show "k = k'"
      using bound[of k e tid] bound[of k' e' tid] uniq[of k e tid k' e']
      by (auto simp: f split: if_splits)
  qed
  have 7: "inv_record (sent m p opts s)"
    using assms(1) fr(4) unfolding inv_def inv_record_def by (auto simp: f st)
  show ?thesis unfolding inv_def using 1 2 3 4 5 6 7 by simp
qed

lemma sent_inv: "inv s \<Longrightarrow> inv (sent m p opts s)"
  using sent_top_level sent_aborted_inv sent_pending_inv by metis

lemma sent_stable:
  assumes "stable s"
  shows "stable (sent m p opts s)"
proof (cases "parent s = self s")
  case True
  then show ?thesis using assms by (simp add: sent_top_level)
next
  case top: False
  have i: "inv s" using assms by (simp add: stable_def)
  show ?thesis
  proof (cases "aborted_at_call opts s")
    case True
    note f = sent_aborted_fields[OF top True]
    show ?thesis
      using assms sent_inv[OF i, of m p opts]
      by (simp add: stable_def inv_flags_def inv_clock_def f)
  next
    case False
    note f = sent_fields[OF top False]
    have "g \<notin> aborted s" if "opt_signal opts = Some g" for g
      using False that by (simp add: aborted_at_call_def)
    then show ?thesis
      using assms sent_inv[OF i, of m p opts]
      by (auto simp: stable_def inv_flags_def inv_clock_def f split: option.splits)
  qed
qed

lemma outcome_not_Pending [simp]: "outcome d \<noteq> Pending"
  by (simp add: outcome_def)

lemma run_message_listener_cases:
  "run_message_listener src d k s =
     (if k \<in> set (message_listeners s) \<and> src = parent s \<and> matches k d
      then (case envs s k of Some e \<Rightarrow> finish k e (outcome d) s | None \<Rightarrow> s) else s)"
  by (simp add: run_message_listener_def handler_cases outcome_def matches_def split: option.splits)

lemma run_abort_listener_cases:
  "run_abort_listener l s =
     (if l \<in> set (abort_listeners s)
      then (case envs s (snd l) of
              Some e \<Rightarrow> finish (snd l) e (Rejected (aborted_error (c_method e))) s | None \<Rightarrow> s)
      else s)"
  by (simp add: run_abort_listener_def onAbort_finish split: option.splits)

lemma finish_timer_gone:
  "c_timeoutId e = Some tid \<Longrightarrow> p \<noteq> Pending \<Longrightarrow>
   finish k e p (s\<lparr>timers := filter (\<lambda>t'. fst t' \<noteq> tid) (timers s)\<rparr>) = finish k e p s"
  by (cases p)
     (simp_all add: finish_def cleanup_def removeEventListener_message_def clearTimeout_def
       removeEventListener_abort_def reject_def resolve_def Let_def split: option.splits)

lemma fire_cases:
  assumes "inv s"
  shows "fire t s =
     (if t \<in> set (timers s)
      then (case envs s (snd (snd t)) of
              Some e \<Rightarrow> finish (snd (snd t)) e
                          (Rejected (timeout_error (c_method e) (c_timeoutMs e))) s
            | None \<Rightarrow> s)
      else s)"
proof (cases "t \<in> set (timers s)")
  case False
  then show ?thesis by (simp add: fire_def)
next
  case True
  then obtain e where e: "envs s (snd (snd t)) = Some e" "c_timeoutId e = Some (fst t)"
    using assms unfolding inv_def inv_timers_def by blast
  show ?thesis
    using True e finish_timer_gone[OF e(2), of "Rejected (timeout_error (c_method e) (c_timeoutMs e))"]
    by (simp add: fire_def timeout_callback_finish)
qed

lemma finish_flags: "inv_flags s \<Longrightarrow> inv_flags (finish k e p s)"
  by (cases p) (auto simp: inv_flags_def finish_def split: option.splits)

lemma finish_clock: "inv_clock s \<Longrightarrow> inv_clock (finish k e p s)"
  by (cases p) (auto simp: inv_clock_def finish_def split: option.splits)

lemma run_message_listener_inv: "inv s \<Longrightarrow> inv (run_message_listener src d k s)"
  by (auto simp: run_message_listener_cases finish_inv split: option.splits)

lemma run_abort_listener_inv: "inv s \<Longrightarrow> inv (run_abort_listener l s)"
proof -
  assume i: "inv s"
  have "snd l \<in> set (message_listeners s)" if "l \<in> set (abort_listeners s)"
    using i that unfolding inv_def inv_abort_def by blast
  then show ?thesis
    using i by (auto simp: run_abort_listener_cases finish_inv split: option.splits)
qed

lemma fire_inv: "inv s \<Longrightarrow> inv (fire t s)"
proof -
  assume i: "inv s"
  have "snd (snd t) \<in> set (message_listeners s)" if "t \<in> set (timers s)"
    using i that unfolding inv_def inv_timers_def by blast
  then show ?thesis
    using i by (auto simp: fire_cases[OF i] finish_inv split: option.splits)
qed

lemma run_message_listener_stable: "stable s \<Longrightarrow> stable (run_message_listener src d k s)"
  unfolding stable_def using run_message_listener_inv[of s src d k]
  by (auto simp: run_message_listener_cases finish_flags finish_clock split: option.splits)

lemma dispatch_message_stable: "stable s \<Longrightarrow> stable (dispatch_message src d s)"
  unfolding dispatch_message_def
  by (rule fold_invariant[where Q = "\<lambda>_. True"]) (simp_all add: run_message_listener_stable)

lemma fire_stable: "stable s \<Longrightarrow> stable (fire t s)"
  unfolding stable_def using fire_inv[of s t]
  by (auto simp: fire_cases finish_flags finish_clock split: option.splits)

lemma fold_removes:
  assumes "\<And>x s. J s \<Longrightarrow> J (f x s)"
    and "\<And>x s. J s \<Longrightarrow> A (f x s) \<subseteq> A s"
    and "\<And>x s. J s \<Longrightarrow> x \<notin> A (f x s)"
    and "J s"
  shows "J (fold f xs s) \<and> A (fold f xs s) \<subseteq> A s - set xs"
  using assms(4)
proof (induction xs arbitrary: s)
  case Nil
  then show ?case by simp
next
  case (Cons x xs)
  have "J (f x s)" using Cons.prems assms(1) by simp
  from Cons.IH[OF this] assms(2)[OF Cons.prems, of x] assms(3)[OF Cons.prems, of x]
  show ?case by auto
qed

lemma finish_shrinks:
  "set (abort_listeners (finish k e p s)) \<subseteq> set (abort_listeners s)"
  "set (timers (finish k e p s)) \<subseteq> set (timers s)"
  "set (message_listeners (finish k e p s)) \<subseteq> set (message_listeners s)"
  "aborted (finish k e p s) = aborted s"
  "now (finish k e p s) = now s"
  "parent (finish k e p s) = parent s"
  "self (finish k e p s) = self s"
  "envs (finish k e p s) = envs s"
  "experimentalRequestId (finish k e p s) = experimentalRequestId s"
  "uncaught (finish k e p s) = uncaught s"
  "posted (trace (finish k e p s)) = posted (trace s)"
  by (cases p; auto simp: finish_def split: option.splits)+

lemma inv_aborted_update [simp]: "inv (s\<lparr>aborted := X\<rparr>) = inv s"
  by (simp add: inv_def inv_listeners_def inv_abort_def inv_timers_def inv_settled_def
      inv_registered_def inv_ids_def inv_record_def settlements_def)

lemma inv_now_update [simp]: "inv (s\<lparr>now := X\<rparr>) = inv s"
  by (simp add: inv_def inv_listeners_def inv_abort_def inv_timers_def inv_settled_def
      inv_registered_def inv_ids_def inv_record_def settlements_def)

lemma run_abort_listener_removes:
  assumes "inv s"
  shows "l \<notin> set (abort_listeners (run_abort_listener l s))"
proof (cases "l \<in> set (abort_listeners s)")
  case False
  then show ?thesis by (simp add: run_abort_listener_cases)
next
  case True
  then obtain e where e: "envs s (snd l) = Some e" "c_signal e = Some (fst l)"
    using assms unfolding inv_def inv_abort_def by blast
  then show ?thesis
    using True by (simp add: run_abort_listener_cases finish_def)
qed

lemma fire_removes:
  assumes "inv s"
  shows "t \<notin> set (timers (fire t s))"
proof (cases "t \<in> set (timers s)")
  case False
  then show ?thesis by (simp add: fire_cases[OF assms])
next
  case True
  then obtain e where e: "envs s (snd (snd t)) = Some e" "c_timeoutId e = Some (fst t)"
    using assms unfolding inv_def inv_timers_def by blast
  then show ?thesis
    using True by (simp add: fire_cases[OF assms] finish_def)
qed

lemma abort_stable:
  assumes "stable s"
  shows "stable (abort g s)"
proof (cases "g \<in> aborted s")
  case True
  then show ?thesis using assms by (simp add: abort_def)
next
  case False
  define J where "J s' \<longleftrightarrow> inv s' \<and> inv_clock s' \<and> aborted s' = insert g (aborted s)" for s'
  define s1 where "s1 = s\<lparr>aborted := insert g (aborted s)\<rparr>"
  define W where "W = filter (\<lambda>l. fst l = g) (abort_listeners s)"
  have J1: "J s1"
    using assms by (simp add: J_def s1_def stable_def inv_clock_def)
  have "J (fold run_abort_listener W s1) \<and>
        set (abort_listeners (fold run_abort_listener W s1)) \<subseteq> set (abort_listeners s1) - set W"
  proof (rule fold_removes[where J = J and A = "\<lambda>s. set (abort_listeners s)"])
    show "J (run_abort_listener x s')" if "J s'" for x s'
      using that run_abort_listener_inv[of s' x]
      by (auto simp: J_def run_abort_listener_cases finish_clock finish_shrinks split: option.splits)
    show "set (abort_listeners (run_abort_listener x s')) \<subseteq> set (abort_listeners s')" for x s'
      using finish_shrinks(1) by (auto simp: run_abort_listener_cases split: option.splits)
    show "x \<notin> set (abort_listeners (run_abort_listener x s'))" if "J s'" for x s'
      using that run_abort_listener_removes by (simp add: J_def)
    show "J s1" by (rule J1)
  qed
  then have fin: "inv (abort g s)" "inv_clock (abort g s)"
       "aborted (abort g s) = insert g (aborted s)"
       "set (abort_listeners (abort g s)) \<subseteq> set (abort_listeners s) - set W"
    using False by (simp_all add: abort_def J_def s1_def W_def)
  have "inv_flags (abort g s)"
    unfolding inv_flags_def
  proof
    fix l assume "l \<in> set (abort_listeners (abort g s))"
    then have "l \<in> set (abort_listeners s)" "fst l \<noteq> g"
      using fin(4) by (auto simp: W_def)
    then show "fst l \<notin> aborted (abort g s)"
      using assms by (auto simp: fin(3) stable_def inv_flags_def)
  qed
  then show ?thesis using fin by (simp add: stable_def)
qed

lemma advance_stable:
  assumes "stable s"
  shows "stable (advance d s)"
proof -
  define W where
    "W = sort_key (\<lambda>t. fst (snd t)) (filter (\<lambda>t. fst (snd t) \<le> now s + d) (timers s))"
  define s' where "s' = fold fire W s"
  have "stable s' \<and> set (timers s') \<subseteq> set (timers s) - set W"
    unfolding s'_def
  proof (rule fold_removes[where J = stable and A = "\<lambda>s. set (timers s)"])
    show "stable (fire x u)" if "stable u" for x u
      using that by (rule fire_stable)
    show "set (timers (fire x u)) \<subseteq> set (timers u)" if "stable u" for x u
      using that finish_shrinks(2) by (auto simp: stable_def fire_cases split: option.splits)
    show "x \<notin> set (timers (fire x u))" if "stable u" for x u
      using that fire_removes by (simp add: stable_def)
    show "stable s" by (rule assms)
  qed
  then have st: "stable s'" and sub: "set (timers s') \<subseteq> set (timers s) - set W"
    by simp_all
  have eq: "advance d s = s'\<lparr>now := now s + d\<rparr>"
    by (simp add: advance_def s'_def W_def Let_def)
  have "inv_clock (s'\<lparr>now := now s + d\<rparr>)"
    unfolding inv_clock_def using sub by (auto simp: W_def)
  then show ?thesis
    using st by (simp add: eq stable_def inv_flags_def)
qed

lemma step_stable: "stable s \<Longrightarrow> stable (step ev s)"
  using sent_stable[of s] by (cases ev) (simp_all add: sent_def dispatch_message_stable abort_stable advance_stable)

lemma run_stable: "stable s \<Longrightarrow> stable (run es s)"
  unfolding run_def by (induction es arbitrary: s) (simp_all add: step_stable)

lemma init_stable: "stable (init_world p w)"
  by (simp add: stable_def inv_def inv_listeners_def inv_abort_def inv_timers_def inv_settled_def
      inv_registered_def inv_ids_def inv_record_def inv_flags_def inv_clock_def init_world_def
      settlements_def)

lemma reachable_stable: "stable (run es (init_world p w))"
  by (simp add: run_stable init_stable)

section \<open>What an event can change\<close>


text \<open>A property kept by every callback is kept by every event other than a call of
  \<open>sendExperimentalRequest\<close>.\<close>

lemma callbacks_keep:
  assumes i: "inv s" and p: "P s"
    and fin: "\<And>k e q u. inv u \<Longrightarrow> P u \<Longrightarrow> k \<in> set (message_listeners u) \<Longrightarrow> envs u k = Some e
                \<Longrightarrow> q \<noteq> Pending \<Longrightarrow> P (finish k e q u)"
    and abt: "\<And>u X. P u \<Longrightarrow> P (u\<lparr>aborted := X\<rparr>)"
    and nw: "\<And>u. P u \<Longrightarrow> P (u\<lparr>now := now s + d\<rparr>)"
  shows "P (dispatch_message src msg s)" and "P (abort g s)" and "P (advance d s)"
proof -
  have m: "inv (run_message_listener src msg k u) \<and> P (run_message_listener src msg k u)"
    if "inv u \<and> P u" for k u
    using that run_message_listener_inv[of u src msg k]
    by (auto simp: run_message_listener_cases fin split: option.splits)
  have "inv (dispatch_message src msg s) \<and> P (dispatch_message src msg s)"
    unfolding dispatch_message_def
    by (rule fold_invariant[where Q = "\<lambda>_. True"]) (simp_all add: i p m)
  then show "P (dispatch_message src msg s)" by simp
  have a: "inv (run_abort_listener l u) \<and> P (run_abort_listener l u)" if "inv u \<and> P u" for l u
  proof -
    have "snd l \<in> set (message_listeners u)" if "l \<in> set (abort_listeners u)"
      using \<open>inv u \<and> P u\<close> that unfolding inv_def inv_abort_def by blast
    then show ?thesis
      using that run_abort_listener_inv[of u l]
      by (auto simp: run_abort_listener_cases fin split: option.splits)
  qed
  have "inv (fold run_abort_listener W (s\<lparr>aborted := X\<rparr>))
        \<and> P (fold run_abort_listener W (s\<lparr>aborted := X\<rparr>))" for W X
    by (rule fold_invariant[where Q = "\<lambda>_. True"]) (simp_all add: i p abt a)
  then show "P (abort g s)" using p by (simp add: abort_def)
  have f: "inv (fire t u) \<and> P (fire t u)" if "inv u \<and> P u" for t u
  proof -
    have "snd (snd t) \<in> set (message_listeners u)" if "t \<in> set (timers u)"
      using \<open>inv u \<and> P u\<close> that unfolding inv_def inv_timers_def by blast
    then show ?thesis
      using that fire_inv[of u t] by (auto simp: fire_cases fin split: option.splits)
  qed
  have "inv (fold fire W s) \<and> P (fold fire W s)" for W
    by (rule fold_invariant[where Q = "\<lambda>_. True"]) (simp_all add: i p f)
  then show "P (advance d s)" by (simp add: advance_def Let_def nw)
qed

lemma now_advance: "now (advance d s) = now s + d"
  by (simp add: advance_def Let_def)

lemma step_frame:
  assumes "stable s"
  shows "parent (step ev s) = parent s"
    and "self (step ev s) = self s"
    and "uncaught (step ev s) = uncaught s"
    and "experimentalRequestId s \<le> experimentalRequestId (step ev s)"
    and "now s \<le> now (step ev s)"
    and "k \<le> experimentalRequestId s \<Longrightarrow> envs (step ev s) k = envs s k"
proof -
  have i: "inv s" using assms by (simp add: stable_def)
  let ?P = "\<lambda>u. parent u = parent s \<and> self u = self s \<and> uncaught u = uncaught s
      \<and> experimentalRequestId u = experimentalRequestId s \<and> envs u = envs s"
  let ?N = "\<lambda>u. now u = now s"
  have msg: "?P (dispatch_message src msg s) \<and> ?N (dispatch_message src msg s)" for src msg
    by (rule callbacks_keep(1)[OF i, where P = "\<lambda>u. ?P u \<and> ?N u" and d = 0])
       (simp_all add: finish_shrinks)
  have abt: "?P (abort g s) \<and> ?N (abort g s)" for g
    by (rule callbacks_keep(2)[OF i, where P = "\<lambda>u. ?P u \<and> ?N u" and d = 0])
       (simp_all add: finish_shrinks)
  have adv: "?P (advance d s)" for d
    by (rule callbacks_keep(3)[OF i, where P = ?P and d = d]) (simp_all add: finish_shrinks)
  have send: "parent (sent m p opts s) = parent s \<and> self (sent m p opts s) = self s
      \<and> uncaught (sent m p opts s) = uncaught s
      \<and> experimentalRequestId s \<le> experimentalRequestId (sent m p opts s)
      \<and> now (sent m p opts s) = now s
      \<and> (k \<le> experimentalRequestId s \<longrightarrow> envs (sent m p opts s) k = envs s k)" for m p opts
  proof (cases "parent s = self s")
    case True
    then show ?thesis by (simp add: sent_top_level)
  next
    case False
    then show ?thesis
      by (cases "aborted_at_call opts s") (simp_all add: sent_fields sent_aborted_fields)
  qed
  show "parent (step ev s) = parent s"
    using msg abt adv send by (cases ev) (simp_all add: sent_def)
  show "self (step ev s) = self s"
    using msg abt adv send by (cases ev) (simp_all add: sent_def)
  show "uncaught (step ev s) = uncaught s"
    using msg abt adv send by (cases ev) (simp_all add: sent_def)
  show "experimentalRequestId s \<le> experimentalRequestId (step ev s)"
    using msg abt adv send by (cases ev) (simp_all add: sent_def)
  show "now s \<le> now (step ev s)"
    using msg abt send by (cases ev) (simp_all add: sent_def now_advance)
  show "envs (step ev s) k = envs s k" if "k \<le> experimentalRequestId s"
    using that msg abt adv send by (cases ev) (simp_all add: sent_def)
qed

lemma settlements_aborted_update [simp]: "settlements k (s\<lparr>aborted := X\<rparr>) = settlements k s"
  by (simp add: settlements_def)

lemma settlements_now_update [simp]: "settlements k (s\<lparr>now := X\<rparr>) = settlements k s"
  by (simp add: settlements_def)

lemma finish_settlements:
  "settlements k (finish k' e q s) =
     settlements k s @ (case q of Pending \<Rightarrow> [] | Fulfilled v \<Rightarrow> if k = k' then [Resolve k' v] else []
                        | Rejected r \<Rightarrow> if k = k' then [Reject k' r] else [])"
  by (cases q) (simp_all add: finish_def)

lemma finish_promises:
  "promises (finish k' e q s) =
     (if promises s k' = Some Pending \<and> q \<noteq> Pending then (promises s)(k' \<mapsto> q) else promises s)"
  by (cases q) (simp_all add: finish_def)

text \<open>Only a call of \<open>sendExperimentalRequest\<close> posts a message, and only one.\<close>

lemma step_posted:
  assumes "stable s"
  shows "posted (trace (step ev s)) =
     posted (trace s) @
     (case ev of
        Send m p opts \<Rightarrow>
          if parent s \<noteq> self s \<and> \<not> aborted_at_call opts s
          then [(parent s, envelope (Suc (experimentalRequestId s)) m p, ''*'')] else []
      | _ \<Rightarrow> [])"
proof -
  have i: "inv s" using assms by (simp add: stable_def)
  let ?P = "\<lambda>u. posted (trace u) = posted (trace s)"
  show ?thesis
  proof (cases ev)
    case (Send m p opts)
    show ?thesis
    proof (cases "parent s = self s")
      case True
      then show ?thesis using Send sent_top_level[of s m p opts] by (simp add: sent_def)
    next
      case False
      then show ?thesis
        using Send sent_fields(13)[OF False, of opts m p] sent_aborted_fields(13)[OF False, of opts m p]
        by (cases "aborted_at_call opts s") (auto simp: sent_def split: option.splits)
    qed
  next
    case (Message src msg)
    have "?P (dispatch_message src msg s)"
      by (rule callbacks_keep(1)[OF i, where P = ?P and d = 0]) (simp_all add: finish_shrinks)
    then show ?thesis by (simp add: Message)
  next
    case (Abort g)
    have "?P (abort g s)"
      by (rule callbacks_keep(2)[OF i, where P = ?P and d = 0]) (simp_all add: finish_shrinks)
    then show ?thesis by (simp add: Abort)
  next
    case (Advance d)
    have "?P (advance d s)"
      by (rule callbacks_keep(3)[OF i, where P = ?P and d = d]) (simp_all add: finish_shrinks)
    then show ?thesis by (simp add: Advance)
  qed
qed


lemma step_settled_promise:
  assumes "stable s" "promises s k = Some q" "q \<noteq> Pending" "k \<le> experimentalRequestId s"
  shows "promises (step ev s) k = Some q"
proof -
  have i: "inv s" using assms by (simp add: stable_def)
  let ?P = "\<lambda>u. promises u k = Some q"
  show ?thesis
  proof (cases ev)
    case (Send m p opts)
    show ?thesis
    proof (cases "parent s = self s")
      case True
      then show ?thesis using Send assms(2) sent_top_level[of s m p opts] by (simp add: sent_def)
    next
      case False
      then show ?thesis
        using Send assms(2,4)
        by (cases "aborted_at_call opts s") (simp_all add: sent_def[symmetric] sent_fields sent_aborted_fields)
    qed
  next
    case (Message src msg)
    have "?P (dispatch_message src msg s)"
      by (rule callbacks_keep(1)[OF i, where P = ?P and d = 0])
         (use assms in \<open>auto simp: finish_promises\<close>)
    then show ?thesis by (simp add: Message)
  next
    case (Abort g)
    have "?P (abort g s)"
      by (rule callbacks_keep(2)[OF i, where P = ?P and d = 0])
         (use assms in \<open>auto simp: finish_promises\<close>)
    then show ?thesis by (simp add: Abort)
  next
    case (Advance d)
    have "?P (advance d s)"
      by (rule callbacks_keep(3)[OF i, where P = ?P and d = d])
         (use assms in \<open>auto simp: finish_promises\<close>)
    then show ?thesis by (simp add: Advance)
  qed
qed


lemma run_append: "run (es @ es') s = run es' (run es s)"
  by (simp add: run_def)

lemma run_snoc: "run (es @ [ev]) s = step ev (run es s)"
  by (simp add: run_def)

lemma run_frame:
  assumes "stable s"
  shows "parent (run es s) = parent s"
    and "self (run es s) = self s"
    and "uncaught (run es s) = uncaught s"
    and "experimentalRequestId s \<le> experimentalRequestId (run es s)"
    and "now s \<le> now (run es s)"
    and "k \<le> experimentalRequestId s \<Longrightarrow> envs (run es s) k = envs s k"
proof -
  have "parent (run es s) = parent s \<and> self (run es s) = self s \<and> uncaught (run es s) = uncaught s
      \<and> experimentalRequestId s \<le> experimentalRequestId (run es s) \<and> now s \<le> now (run es s)
      \<and> (k \<le> experimentalRequestId s \<longrightarrow> envs (run es s) k = envs s k)"
  proof (induction es rule: rev_induct)
    case Nil
    show ?case by (simp add: run_def)
  next
    case (snoc ev es)
    have st: "stable (run es s)" using assms by (rule run_stable)
    show ?case
      using snoc step_frame(1-5)[OF st, where ev = ev] step_frame(6)[OF st, where ev = ev and k = k]
      by (auto simp: run_snoc)
  qed
  then show "parent (run es s) = parent s" "self (run es s) = self s"
    "uncaught (run es s) = uncaught s"
    "experimentalRequestId s \<le> experimentalRequestId (run es s)" "now s \<le> now (run es s)"
    "k \<le> experimentalRequestId s \<Longrightarrow> envs (run es s) k = envs s k"
    by simp_all
qed

lemma step_counter:
  assumes "stable s"
  shows "experimentalRequestId (step ev s) =
     (case ev of
        Send m p opts \<Rightarrow> if parent s = self s then experimentalRequestId s
                         else Suc (experimentalRequestId s)
      | _ \<Rightarrow> experimentalRequestId s)"
proof -
  have i: "inv s" using assms by (simp add: stable_def)
  let ?P = "\<lambda>u. experimentalRequestId u = experimentalRequestId s"
  show ?thesis
  proof (cases ev)
    case (Send m p opts)
    show ?thesis
    proof (cases "parent s = self s")
      case True
      then show ?thesis using Send sent_top_level[of s m p opts] by (simp add: sent_def)
    next
      case False
      then show ?thesis
        using Send
        by (cases "aborted_at_call opts s")
           (simp_all add: sent_def[symmetric] sent_fields sent_aborted_fields)
    qed
  next
    case (Message src msg)
    have "?P (dispatch_message src msg s)"
      by (rule callbacks_keep(1)[OF i, where P = ?P and d = 0]) (simp_all add: finish_shrinks)
    then show ?thesis by (simp add: Message)
  next
    case (Abort g)
    have "?P (abort g s)"
      by (rule callbacks_keep(2)[OF i, where P = ?P and d = 0]) (simp_all add: finish_shrinks)
    then show ?thesis by (simp add: Abort)
  next
    case (Advance d)
    have "?P (advance d s)"
      by (rule callbacks_keep(3)[OF i, where P = ?P and d = d]) (simp_all add: finish_shrinks)
    then show ?thesis by (simp add: Advance)
  qed
qed

lemma send_returns:
  "fst (sendExperimentalRequest m p opts s) =
     (if parent s = self s
      then Promise_reject (Thrown (Error ''sendExperimentalRequest must be called from within an iframe''))
      else New_Promise (Suc (experimentalRequestId s)))"
  by (simp add: sendExperimentalRequest_def Let_def)

lemma issued_interval:
  assumes "stable s"
  shows "issued es s = [Suc (experimentalRequestId s) ..< Suc (experimentalRequestId (run es s))]"
  using assms
proof (induction es arbitrary: s)
  case Nil
  show ?case by (simp add: run_def)
next
  case (Cons ev es)
  define c where "c = experimentalRequestId s"
  define c1 where "c1 = experimentalRequestId (step ev s)"
  define c2 where "c2 = experimentalRequestId (run (ev # es) s)"
  have st: "stable (step ev s)" using Cons.prems by (rule step_stable)
  have run: "run (ev # es) s = run es (step ev s)" by (simp add: run_def)
  have mono: "c1 \<le> c2"
    using run_frame(4)[OF st, of es] by (simp add: c1_def c2_def run)
  have IH: "issued es (step ev s) = [Suc c1 ..< Suc c2]"
    using Cons.IH[OF st] by (simp only: c1_def c2_def run)
  have cnt: "c1 = (case ev of Send m p opts \<Rightarrow> if parent s = self s then c else Suc c | _ \<Rightarrow> c)"
    using step_counter[OF Cons.prems, of ev] by (simp only: c1_def c_def)
  have "issued (ev # es) s = [Suc c ..< Suc c2]"
  proof (cases "\<exists>m p opts. ev = Send m p opts \<and> parent s \<noteq> self s")
    case True
    then obtain m p opts where ev: "ev = Send m p opts" and top: "parent s \<noteq> self s" by blast
    have c1: "c1 = Suc c" using cnt ev top by simp
    have "issued (ev # es) s = Suc c # issued es (step ev s)"
      using top by (simp add: ev send_returns c_def)
    also have "\<dots> = Suc c # [Suc (Suc c) ..< Suc c2]"
      by (simp only: IH c1)
    also have "\<dots> = [Suc c ..< Suc c2]"
      using mono c1 by (simp add: upt_conv_Cons del: upt_Suc)
    finally show ?thesis .
  next
    case False
    then have c1: "c1 = c" using cnt by (cases ev) auto
    have "issued (ev # es) s = issued es (step ev s)"
      using False by (cases ev) (auto simp: send_returns)
    then show ?thesis by (simp only: IH c1)
  qed
  then show ?case by (simp only: c_def c2_def)
qed

section \<open>Delivery of a response\<close>

lemma matches_unique: "matches k d \<Longrightarrow> matches k' d \<Longrightarrow> k' = k"
  by (simp add: matches_def)

lemma run_message_listener_other:
  "matches k d \<Longrightarrow> x \<noteq> k \<or> k \<notin> set (message_listeners s) \<Longrightarrow> run_message_listener src d x s = s"
proof -
  assume m: "matches k d" and o: "x \<noteq> k \<or> k \<notin> set (message_listeners s)"
  have "\<not> (x \<in> set (message_listeners s) \<and> src = parent s \<and> matches x d)"
  proof
    assume a: "x \<in> set (message_listeners s) \<and> src = parent s \<and> matches x d"
    then have "x = k" using m matches_unique by blast
    then show False using a o by blast
  qed
  then show ?thesis by (simp only: run_message_listener_cases if_False)
qed

lemma finish_unregisters: "q \<noteq> Pending \<Longrightarrow> k \<notin> set (message_listeners (finish k e q s))"
  by (cases q) (simp_all add: finish_def)

lemma fold_message_listeners_gone:
  assumes "matches k d" "k \<notin> set (message_listeners s)"
  shows "fold (run_message_listener src d) xs s = s"
proof (induction xs)
  case Nil
  show ?case by simp
next
  case (Cons x xs)
  have "run_message_listener src d x s = s"
    using assms by (rule run_message_listener_other[OF _ disjI2])
  then show ?case using Cons by simp
qed

lemma fold_message_listeners_match:
  assumes "matches k d" "src = parent s" "k \<in> set (message_listeners s)" "envs s k = Some e"
    "k \<in> set xs"
  shows "fold (run_message_listener src d) xs s = finish k e (outcome d) s"
  using assms(5)
proof (induction xs)
  case Nil
  then show ?case by simp
next
  case (Cons x xs)
  show ?case
  proof (cases "x = k")
    case True
    have r: "run_message_listener src d x s = finish k e (outcome d) s"
      using True assms(1-4) by (simp add: run_message_listener_cases)
    have "fold (run_message_listener src d) xs (finish k e (outcome d) s) = finish k e (outcome d) s"
      by (rule fold_message_listeners_gone[OF assms(1)]) (simp add: finish_unregisters)
    then show ?thesis by (simp add: r)
  next
    case False
    then have "run_message_listener src d x s = s"
      using assms(1) by (intro run_message_listener_other[OF _ disjI1])
    moreover have "k \<in> set xs" using Cons.prems False by simp
    ultimately show ?thesis using Cons.IH by simp
  qed
qed

lemma dispatch_message_match:
  assumes "inv s" "matches k d" "k \<in> set (message_listeners s)"
  shows "promises (dispatch_message (parent s) d s) k = Some (outcome d)"
proof -
  obtain e where e: "envs s k = Some e" and p: "promises s k = Some Pending"
    using assms(1,3) unfolding inv_def inv_listeners_def by blast
  have "dispatch_message (parent s) d s = finish k e (outcome d) s"
    unfolding dispatch_message_def
    by (rule fold_message_listeners_match[OF assms(2) refl assms(3) e assms(3)])
  then show ?thesis using p by (simp add: finish_promises)
qed

lemma dispatch_message_ignored:
  assumes "src \<noteq> parent s \<or> (\<forall>k \<in> set (message_listeners s). get_opt d ''id'' \<noteq> JNum (int k))"
  shows "dispatch_message src d s = s"
proof -
  have one: "run_message_listener src d x s = s" for x
    using assms by (auto simp: run_message_listener_cases matches_def)
  have "fold (run_message_listener src d) xs s = s" for xs
    by (induction xs) (simp_all add: one)
  then show ?thesis by (simp add: dispatch_message_def)
qed

section \<open>Running the model\<close>

lemmas eval_defs =
  run_def guest_def top_level_def init_world_def response_def error_response_def
  method_not_found_def with_timeout_def with_signal_def
  sendExperimentalRequest_def executor_def opt_signal_def opt_timeoutMs_def
  DEFAULT_EXPERIMENTAL_REQUEST_TIMEOUT_MS_def envelope_def assign_def
  addEventListener_message_def addEventListener_abort_def setTimeout_def postMessage_def
  removeEventListener_message_def removeEventListener_abort_def clearTimeout_def
  resolve_def reject_def report_def cleanup_def handler_def onAbort_def timeout_callback_def
  run_message_listener_def dispatch_message_def run_abort_listener_def abort_def
  fire_def advance_def settlements_def aborted_at_call_def effective_timeout_def Let_def

lemma run_posted_top_level:
  assumes "stable s" "parent s = self s"
  shows "posted (trace (run es s)) = posted (trace s)"
proof (induction es rule: rev_induct)
  case Nil
  show ?case by (simp add: run_def)
next
  case (snoc ev es)
  have st: "stable (run es s)" using assms(1) by (rule run_stable)
  have top: "parent (run es s) = self (run es s)"
    using assms(2) run_frame(1,2)[OF assms(1), of es] by simp
  show ?case
    using snoc step_posted[OF st, of ev] top by (cases ev) (simp_all add: run_snoc)
qed

lemma envelope_id [simp]: "get_opt (envelope k m p) ''id'' = JNum (int k)"
  by (simp add: envelope_def assign_def)

lemma envelope_shape:
  "envelope k m p =
     JObj ([(''jsonrpc'', JStr ''2.0''), (''id'', JNum (int k)), (''method'', JStr m)]
           @ (if p = JUndefined then [] else [(''params'', p)]))"
  by (simp add: envelope_def assign_def)

text \<open>Every envelope posted so far carries an id handed out so far.\<close>

lemma posted_ids:
  assumes "stable s"
    and "\<forall>x \<in> set (posted (trace s)). \<exists>k m p. fst (snd x) = envelope k m p \<and> k \<le> experimentalRequestId s"
    and "x \<in> set (posted (trace (run es s)))"
  shows "\<exists>k m p. fst (snd x) = envelope k m p \<and> k \<le> experimentalRequestId (run es s)"
  using assms(3)
proof (induction es arbitrary: x rule: rev_induct)
  case Nil
  then show ?case using assms(2) by (simp add: run_def)
next
  case (snoc ev es)
  have st: "stable (run es s)" using assms(1) by (rule run_stable)
  have mono: "experimentalRequestId (run es s) \<le> experimentalRequestId (step ev (run es s))"
    using step_frame(4)[OF st] .
  from snoc.prems have "x \<in> set (posted (trace (run es s)))
      \<or> (\<exists>m p opts. ev = Send m p opts \<and> parent (run es s) \<noteq> self (run es s)
            \<and> x = (parent (run es s), envelope (Suc (experimentalRequestId (run es s))) m p, ''*''))"
    using step_posted[OF st, of ev] by (cases ev) (auto simp: run_snoc split: if_splits)
  then show ?case
  proof
    assume "x \<in> set (posted (trace (run es s)))"
    from snoc.IH[OF this] mono show ?thesis
      by (auto simp: run_snoc intro: le_trans)
  next
    assume "\<exists>m p opts. ev = Send m p opts \<and> parent (run es s) \<noteq> self (run es s)
        \<and> x = (parent (run es s), envelope (Suc (experimentalRequestId (run es s))) m p, ''*'')"
    then obtain m p opts where ev: "ev = Send m p opts" and top: "parent (run es s) \<noteq> self (run es s)"
      and x: "x = (parent (run es s), envelope (Suc (experimentalRequestId (run es s))) m p, ''*'')"
      by blast
    have "experimentalRequestId (step ev (run es s)) = Suc (experimentalRequestId (run es s))"
      using step_counter[OF st, of ev] top by (simp add: ev)
    then show ?thesis using x by (auto simp: run_snoc)
  qed
qed

lemma pending_iff_listening:
  assumes "stable s"
  shows "promises s k = Some Pending \<longleftrightarrow> k \<in> set (message_listeners s)"
  using assms unfolding stable_def inv_def inv_listeners_def inv_settled_def by blast

section \<open>Aborts and timeouts\<close>


lemma fold_reaches:
  assumes go: "\<And>y u. G u \<Longrightarrow> G (f y u) \<or> D (f y u)"
    and hit: "\<And>u. G u \<Longrightarrow> D (f x u)"
    and keep: "\<And>y u. D u \<Longrightarrow> D (f y u)"
  shows "G s \<Longrightarrow> x \<in> set xs \<Longrightarrow> D (fold f xs s)"
proof (induction xs arbitrary: s)
  case Nil
  then show ?case by simp
next
  case (Cons y ys)
  have stays: "D (fold f zs u)" if "D u" for zs u
    using that by (induction zs arbitrary: u) (simp_all add: keep)
  show ?case
  proof (cases "x = y")
    case True
    then have "D (f y s)" using hit Cons.prems(1) by simp
    then show ?thesis using stays by simp
  next
    case False
    then have mem: "x \<in> set ys" using Cons.prems(2) by simp
    from go[OF Cons.prems(1), of y] show ?thesis
    proof
      assume "G (f y s)"
      from Cons.IH[OF this mem] show ?thesis by simp
    next
      assume "D (f y s)"
      then show ?thesis using stays by simp
    qed
  qed
qed

lemma finish_promise_settled:
  "promises u k = Some q \<Longrightarrow> q \<noteq> Pending \<Longrightarrow> promises (finish k' e' q' u) k = Some q"
  by (auto simp: finish_promises)

lemma finish_promise_other:
  "k' \<noteq> k \<Longrightarrow> promises (finish k' e' q' u) k = promises u k"
  by (simp add: finish_promises)


text \<open>An abort of its signal rejects a pending call.\<close>

lemma abort_rejects:
  assumes "stable s" "promises s k = Some Pending" "envs s k = Some e" "c_signal e = Some g"
  shows "promises (abort g s) k = Some (Rejected (aborted_error (c_method e)))"
proof -
  have i: "inv s" using assms(1) by (simp add: stable_def)
  have mem: "k \<in> set (message_listeners s)"
    using pending_iff_listening[OF assms(1)] assms(2) by simp
  have l: "(g, k) \<in> set (abort_listeners s)"
    using i mem assms(3,4) unfolding inv_def inv_registered_def by blast
  then have na: "g \<notin> aborted s"
    using assms(1) unfolding stable_def inv_flags_def by force
  let ?G = "\<lambda>u. inv u \<and> promises u k = Some Pending \<and> envs u k = Some e"
  let ?D = "\<lambda>u. promises u k = Some (Rejected (aborted_error (c_method e)))"
  let ?W = "filter (\<lambda>l. fst l = g) (abort_listeners s)"
  have "?D (fold run_abort_listener ?W (s\<lparr>aborted := insert g (aborted s)\<rparr>))"
  proof (rule fold_reaches[where G = ?G and D = ?D and x = "(g, k)"])
    show "?G (run_abort_listener y u) \<or> ?D (run_abort_listener y u)" if "?G u" for y u
    proof (cases "y \<in> set (abort_listeners u)")
      case False
      then show ?thesis using that by (simp add: run_abort_listener_cases)
    next
      case True
      have iu: "inv u" using that by simp
      obtain e' where e': "envs u (snd y) = Some e'"
        using iu True unfolding inv_def inv_abort_def by blast
      have r: "run_abort_listener y u = finish (snd y) e' (Rejected (aborted_error (c_method e'))) u"
        using True e' by (simp add: run_abort_listener_cases)
      show ?thesis
      proof (cases "snd y = k")
        case True
        then show ?thesis using that e' by (simp add: r finish_promises)
      next
        case False
        then show ?thesis
          using that run_abort_listener_inv[of u y]
          by (simp add: r[symmetric]) (simp add: r finish_promise_other finish_shrinks)
      qed
    qed
    show "?D (run_abort_listener (g, k) u)" if "?G u" for u
    proof -
      have "k \<in> set (message_listeners u)"
        using that unfolding inv_def inv_settled_def by blast
      then have "(g, k) \<in> set (abort_listeners u)"
        using that assms(4) unfolding inv_def inv_registered_def by blast
      then show ?thesis
        using that by (simp add: run_abort_listener_cases finish_promises)
    qed
    show "?D (run_abort_listener y u)" if "?D u" for y u
      using that by (auto simp: run_abort_listener_cases finish_promises split: option.splits)
    show "?G (s\<lparr>aborted := insert g (aborted s)\<rparr>)"
      using i assms(2,3) by simp
    show "(g, k) \<in> set ?W" using l by simp
  qed
  then show ?thesis using na by (simp add: abort_def)
qed







subsection \<open>Following one call through a run\<close>

lemma tracked_step: "tracked k e s \<Longrightarrow> tracked k e (step ev s)"
  unfolding tracked_def
  using step_stable[of s ev] step_frame(4)[of s ev] step_frame(6)[of s k ev] by auto

lemma tracked_run: "tracked k e s \<Longrightarrow> tracked k e (run es s)"
  unfolding run_def by (induction es arbitrary: s) (simp_all add: tracked_step)



lemma tracked_sent:
  assumes "stable s" "parent s \<noteq> self s"
  shows "\<exists>tid. tracked (Suc (experimentalRequestId s))
            \<lparr>c_method = m, c_signal = opt_signal opts, c_timeoutMs = effective_timeout opts,
             c_timeoutId = tid\<rparr> (sent m p opts s)
          \<and> (effective_timeout opts \<le> 0 \<longrightarrow> tid = None)"
proof (cases "aborted_at_call opts s")
  case True
  show ?thesis
    using sent_stable[OF assms(1), of m p opts]
    by (intro exI[of _ None]) (simp add: tracked_def sent_aborted_fields[OF assms(2) True])
next
  case False
  show ?thesis
    using sent_stable[OF assms(1), of m p opts]
    by (intro exI[of _ "if 0 < effective_timeout opts then Some (Suc (next_timer s)) else None"])
       (simp add: tracked_def sent_fields[OF assms(2) False])
qed










section \<open>C1: one settlement, and nothing left behind\<close>





section \<open>C2: which messages settle a request\<close>

lemma dispatch_message_other:
  assumes "\<not> (src = parent s \<and> get_opt d ''id'' = JNum (int k) \<and> k \<in> set (message_listeners s))"
  shows "settlements k (dispatch_message src d s) = settlements k s
       \<and> promises (dispatch_message src d s) k = promises s k"
proof -
  let ?P = "\<lambda>u. settlements k u = settlements k s \<and> promises u k = promises s k
      \<and> parent u = parent s \<and> set (message_listeners u) \<subseteq> set (message_listeners s)"
  have keep: "?P (run_message_listener src d x u)" if "?P u" for x u
  proof (cases "x \<in> set (message_listeners u) \<and> src = parent u \<and> matches x d")
    case False
    then have "run_message_listener src d x u = u"
      by (simp only: run_message_listener_cases if_False)
    then show ?thesis using that by simp
  next
    case True
    then have ne: "x \<noteq> k" using assms that by (auto simp: matches_def)
    show ?thesis
    proof (cases "envs u x")
      case None
      then have "run_message_listener src d x u = u"
        by (simp add: run_message_listener_cases)
      then show ?thesis using that by simp
    next
      case (Some e)
      have r: "run_message_listener src d x u = finish x e (outcome d) u"
        using True Some by (simp add: run_message_listener_cases)
      have "settlements k (finish x e (outcome d) u) = settlements k u"
        using ne by (simp add: finish_settlements split: pstate.splits)
      moreover have "promises (finish x e (outcome d) u) k = promises u k"
        using ne by (simp add: finish_promises)
      moreover have "set (message_listeners (finish x e (outcome d) u)) \<subseteq> set (message_listeners s)"
        using finish_shrinks(3)[of x e "outcome d" u] that by blast
      ultimately show ?thesis using that by (simp add: r finish_shrinks)
    qed
  qed
  have "?P (fold (run_message_listener src d) xs s)" for xs
  proof (induction xs rule: rev_induct)
    case Nil
    show ?case by simp
  next
    case (snoc x xs)
    from keep[OF snoc.IH, of x] show ?case by simp
  qed
  then show ?thesis by (simp add: dispatch_message_def)
qed

lemma dispatch_message_uncaught: "uncaught (dispatch_message src d s) = uncaught s"
proof -
  have "uncaught (fold (run_message_listener src d) xs u) = uncaught u" for xs u
    by (induction xs arbitrary: u)
       (simp_all add: run_message_listener_cases finish_shrinks split: option.splits)
  then show ?thesis by (simp add: dispatch_message_def)
qed

text \<open>
  C2. A message event whose source is not the parent window, or whose id is the id of no
  pending request, changes nothing at all. A message event settles a request (calls its
  \<open>resolve\<close> or \<open>reject\<close>, changes its promise) only if its source is the parent window,
  its id is the id of that request and the request is pending. No message makes the
  listeners throw.
\<close>

theorem message_settles_only_trusted_matching:
  assumes "s = run es (init_world p w)"
  shows "(src \<noteq> parent s \<longrightarrow> step (Message src d) s = s)
       \<and> ((\<forall>k. promises s k = Some Pending \<longrightarrow> get_opt d ''id'' \<noteq> JNum (int k))
            \<longrightarrow> step (Message src d) s = s)
       \<and> (settlements k (step (Message src d) s) \<noteq> settlements k s
            \<or> promises (step (Message src d) s) k \<noteq> promises s k
          \<longrightarrow> src = parent s \<and> get_opt d ''id'' = JNum (int k) \<and> promises s k = Some Pending)
       \<and> uncaught (step (Message src d) s) = uncaught s"
proof -
  have st: "stable s" using assms by (simp add: reachable_stable)
  note pl = pending_iff_listening[OF st]
  have 1: "src \<noteq> parent s \<longrightarrow> step (Message src d) s = s"
    using dispatch_message_ignored[OF disjI1, of src s d] by simp
  have 2: "(\<forall>k. promises s k = Some Pending \<longrightarrow> get_opt d ''id'' \<noteq> JNum (int k))
      \<longrightarrow> step (Message src d) s = s"
  proof
    assume "\<forall>k. promises s k = Some Pending \<longrightarrow> get_opt d ''id'' \<noteq> JNum (int k)"
    then have "\<forall>k \<in> set (message_listeners s). get_opt d ''id'' \<noteq> JNum (int k)"
      using pl by blast
    from dispatch_message_ignored[OF disjI2, OF this] show "step (Message src d) s = s"
      by simp
  qed
  have 3: "settlements k (step (Message src d) s) \<noteq> settlements k s
      \<or> promises (step (Message src d) s) k \<noteq> promises s k
      \<longrightarrow> src = parent s \<and> get_opt d ''id'' = JNum (int k) \<and> promises s k = Some Pending"
  proof (rule impI, rule ccontr)
    assume changed: "settlements k (step (Message src d) s) \<noteq> settlements k s
      \<or> promises (step (Message src d) s) k \<noteq> promises s k"
    assume "\<not> (src = parent s \<and> get_opt d ''id'' = JNum (int k) \<and> promises s k = Some Pending)"
    then have "\<not> (src = parent s \<and> get_opt d ''id'' = JNum (int k) \<and> k \<in> set (message_listeners s))"
      using pl by blast
    from dispatch_message_other[OF this] changed show False
      unfolding step.simps by blast
  qed
  have 4: "uncaught (step (Message src d) s) = uncaught s"
    unfolding step.simps by (rule dispatch_message_uncaught)
  show ?thesis using 1 2 3 4 by blast
qed

theorem message_settles_only_trusted_matching_witness:
  "step (Message 9 (response 1 (JBool True))) (run [Send ''x/test'' JUndefined (with_timeout 100)] guest)
     = run [Send ''x/test'' JUndefined (with_timeout 100)] guest
   \<and> step (Message 7 (response 1000 (JBool True))) (run [Send ''x/test'' JUndefined (with_timeout 100)] guest)
     = run [Send ''x/test'' JUndefined (with_timeout 100)] guest
   \<and> promises (step (Message 7 (response 1 (JBool True)))
        (run [Send ''x/test'' JUndefined (with_timeout 100)] guest)) 1 = Some (Fulfilled (JBool True))"
proof -
  define s where "s = run [Send ''x/test'' JUndefined (with_timeout 100)] guest"
  have r: "s = run [Send ''x/test'' JUndefined (with_timeout 100)] (init_world 7 1)"
    by (simp add: s_def guest_def)
  have par: "parent s = 7" by (simp add: s_def eval_defs)
  have pend: "promises s k = Some Pending \<longleftrightarrow> k = 1" for k
    by (simp add: s_def eval_defs)
  have a: "(9::nat) \<noteq> parent s" by (simp add: par)
  have b: "\<forall>k. promises s k = Some Pending \<longrightarrow> get_opt (response 1000 (JBool True)) ''id'' \<noteq> JNum (int k)"
    by (simp add: pend response_def)
  have c: "promises (step (Message 7 (response 1 (JBool True))) s) 1 = Some (Fulfilled (JBool True))"
    by (simp add: s_def eval_defs)
  have 1: "step (Message 9 (response 1 (JBool True))) s = s"
    by (rule mp[OF message_settles_only_trusted_matching[OF r, of 9 "response 1 (JBool True)" 1,
          THEN conjunct1] a])
  have 2: "step (Message 7 (response 1000 (JBool True))) s = s"
    by (rule mp[OF message_settles_only_trusted_matching[OF r, of 7 "response 1000 (JBool True)" 1,
          THEN conjunct2, THEN conjunct1] b])
  show ?thesis
    using 1 2 c by (simp only: s_def simp_thms)
qed

section \<open>C3: the timeout\<close>



section \<open>C4: cancellation\<close>

text \<open>
  C4. A call from inside an iframe with a cancellation signal: if the signal is already
  aborted when the call is made, the promise is rejected at once with the abort error,
  which names the method, and nothing is posted; whenever the promise is still pending and
  the signal aborts, the promise is rejected with that error. Once it is rejected so, a
  message carrying the id of the call changes nothing, and no later event changes the
  promise.
\<close>

theorem abort_rejects_request:
  assumes "s = run es (init_world p w)" "parent s \<noteq> self s" "opt_signal opts = Some g"
    and "k = Suc (experimentalRequestId s)" "s1 = snd (sendExperimentalRequest m params opts s)"
  shows "fst (sendExperimentalRequest m params opts s) = New_Promise k
       \<and> aborted_error m
           = Thrown (Error (''Experimental request '' @ [dquote] @ m @ [dquote] @ '' was aborted''))
       \<and> (g \<in> aborted s
            \<longrightarrow> promises s1 k = Some (Rejected (aborted_error m))
                \<and> posted (trace s1) = posted (trace s))
       \<and> (g \<notin> aborted s \<longrightarrow> promises s1 k = Some Pending)
       \<and> (\<forall>es'. promises (run es' s1) k = Some Pending
            \<longrightarrow> promises (step (Abort g) (run es' s1)) k = Some (Rejected (aborted_error m)))
       \<and> (\<forall>es' src d. promises (run es' s1) k = Some (Rejected (aborted_error m))
                       \<and> get_opt d ''id'' = JNum (int k)
            \<longrightarrow> step (Message src d) (run es' s1) = run es' s1)
       \<and> (\<forall>es' ev. promises (run es' s1) k = Some (Rejected (aborted_error m))
            \<longrightarrow> promises (step ev (run es' s1)) k = Some (Rejected (aborted_error m)))"
proof -
  have st: "stable s" using assms(1) by (simp add: reachable_stable)
  have s1: "s1 = sent m params opts s" using assms(5) by (simp add: sent_def)
  obtain tid where tr: "tracked k \<lparr>c_method = m, c_signal = Some g,
      c_timeoutMs = effective_timeout opts, c_timeoutId = tid\<rparr> s1"
    using tracked_sent[OF st assms(2), of m opts params] assms(3,4) s1 by auto
  let ?e = "\<lparr>c_method = m, c_signal = Some g, c_timeoutMs = effective_timeout opts,
      c_timeoutId = tid\<rparr>"
  have 1: "fst (sendExperimentalRequest m params opts s) = New_Promise k"
    using assms(2,4) by (simp add: send_returns)
  have 2: "promises s1 k = Some (Rejected (aborted_error m)) \<and> posted (trace s1) = posted (trace s)"
    if "g \<in> aborted s"
  proof -
    have a: "aborted_at_call opts s" using that assms(3) by (simp add: aborted_at_call_def)
    show ?thesis
      by (simp add: s1 assms(4) sent_aborted_fields[OF assms(2) a])
  qed
  have 3: "promises s1 k = Some Pending" if "g \<notin> aborted s"
  proof -
    have a: "\<not> aborted_at_call opts s" using that assms(3) by (simp add: aborted_at_call_def)
    show ?thesis
      by (simp add: s1 assms(4) sent_fields[OF assms(2) a])
  qed
  have 4: "promises (step (Abort g) (run es' s1)) k = Some (Rejected (aborted_error m))"
    if "promises (run es' s1) k = Some Pending" for es'
  proof -
    have t: "tracked k ?e (run es' s1)" using tr by (rule tracked_run)
    then have "stable (run es' s1)" "envs (run es' s1) k = Some ?e"
      by (simp_all add: tracked_def)
    from abort_rejects[OF this(1) that this(2)] show ?thesis by simp
  qed
  have 5: "step (Message src d) (run es' s1) = run es' s1"
    if "promises (run es' s1) k = Some (Rejected (aborted_error m))"
      "get_opt d ''id'' = JNum (int k)" for es' src d
  proof -
    have t: "stable (run es' s1)" using tracked_run[OF tr, of es'] by (simp add: tracked_def)
    have "k \<notin> set (message_listeners (run es' s1))"
      using pending_iff_listening[OF t, of k] that(1) by simp
    then have "\<forall>k' \<in> set (message_listeners (run es' s1)). get_opt d ''id'' \<noteq> JNum (int k')"
      using that(2) by auto
    from dispatch_message_ignored[OF disjI2, OF this] show ?thesis by simp
  qed
  have 6: "promises (step ev (run es' s1)) k = Some (Rejected (aborted_error m))"
    if "promises (run es' s1) k = Some (Rejected (aborted_error m))" for es' ev
  proof -
    have t: "stable (run es' s1)" "k \<le> experimentalRequestId (run es' s1)"
      using tracked_run[OF tr, of es'] by (simp_all add: tracked_def)
    from step_settled_promise[OF t(1) that _ t(2)] show ?thesis by simp
  qed
  show ?thesis using 1 2 3 4 5 6 by (simp add: aborted_error_def)
qed

theorem abort_rejects_request_witness:
  "promises (run [Abort 3, Send ''x/test'' JUndefined (with_signal 3 0)] guest) 1
     = Some (Rejected (Thrown (Error (''Experimental request '' @ [dquote] @ ''x/test'' @ [dquote]
                                      @ '' was aborted''))))
   \<and> promises (run [Send ''x/test'' JUndefined (with_signal 3 0), Abort 3] guest) 1
     = Some (Rejected (Thrown (Error (''Experimental request '' @ [dquote] @ ''x/test'' @ [dquote]
                                      @ '' was aborted''))))
   \<and> step (Message 7 (response 1 (JStr ''late'')))
        (run [Send ''x/test'' JUndefined (with_signal 3 0), Abort 3] guest)
     = run [Send ''x/test'' JUndefined (with_signal 3 0), Abort 3] guest"
proof -
  define a where "a = run [Abort 3] (init_world 7 1)"
  define b where "b = run [] (init_world 7 1)"
  define b1 where "b1 = snd (sendExperimentalRequest ''x/test'' JUndefined (with_signal 3 0) b)"
  have sig: "opt_signal (with_signal 3 0) = Some 3"
    by (simp add: opt_signal_def with_signal_def)
  have pa: "parent a \<noteq> self a" "Suc 0 = Suc (experimentalRequestId a)" "3 \<in> aborted a"
    by (simp_all add: a_def eval_defs)
  have pb: "parent b \<noteq> self b" "Suc 0 = Suc (experimentalRequestId b)"
    by (simp_all add: b_def eval_defs)
  note A = abort_rejects_request[OF a_def pa(1) sig pa(2) refl, of "''x/test''" JUndefined]
  note B = abort_rejects_request[OF b_def pb(1) sig pb(2) b1_def]
  have ra: "run [Abort 3, Send ''x/test'' JUndefined (with_signal 3 0)] guest
      = snd (sendExperimentalRequest ''x/test'' JUndefined (with_signal 3 0) a)"
    by (simp add: a_def run_def guest_def)
  have rb: "run [Send ''x/test'' JUndefined (with_signal 3 0), Abort 3] guest
      = step (Abort 3) (run [] b1)"
    by (simp add: b1_def b_def run_def guest_def)
  have pend: "promises (run [] b1) (Suc 0) = Some Pending"
    by (simp add: b1_def b_def eval_defs)
  have 1: "promises (snd (sendExperimentalRequest ''x/test'' JUndefined (with_signal 3 0) a)) (Suc 0)
      = Some (Rejected (aborted_error ''x/test''))"
    using A pa(3) by blast
  have 2: "promises (step (Abort 3) (run [] b1)) (Suc 0) = Some (Rejected (aborted_error ''x/test''))"
    using B pend by blast
  have second: "promises (run [Abort 3] b1) (Suc 0) = Some (Rejected (aborted_error ''x/test''))"
    using 2 by (simp add: run_def)
  have i: "get_opt (response 1 (JStr ''late'')) ''id'' = JNum (int (Suc 0))"
    by (simp add: response_def)
  have 3: "step (Message 7 (response 1 (JStr ''late''))) (run [Abort 3] b1) = run [Abort 3] b1"
    using B second i by blast
  have rb': "step (Abort 3) (run [] b1) = run [Abort 3] b1" by (simp add: run_def)
  show ?thesis
    unfolding ra rb rb' using 1 second 3 by (simp add: aborted_error_def)
qed

section \<open>C5: settlement by a response\<close>




section \<open>C6: the envelope that is posted\<close>

text \<open>
  C6. A call from inside an iframe, with no options or with a signal that is not already
  aborted, posts exactly one message, to the parent window: the envelope with
  \<open>jsonrpc\<close> \<open>'2.0'\<close>, the new id, the method and the params, the \<open>params\<close> key
  being left out when the params are \<open>undefined\<close>. The id is fresh: no earlier call got it
  and no envelope posted before carries it.
\<close>

theorem sendExperimentalRequest_posts_envelope:
  assumes "s = run es (init_world p w)" "parent s \<noteq> self s" "\<not> aborted_at_call opts s"
  shows "posted (trace (snd (sendExperimentalRequest m params opts s)))
           = posted (trace s) @ [(parent s, envelope (Suc (experimentalRequestId s)) m params, ''*'')]
       \<and> envelope (Suc (experimentalRequestId s)) m params
           = JObj ([(''jsonrpc'', JStr ''2.0''), (''id'', JNum (int (Suc (experimentalRequestId s)))),
                    (''method'', JStr m)]
                   @ (if params = JUndefined then [] else [(''params'', params)]))
       \<and> fst (sendExperimentalRequest m params opts s) = New_Promise (Suc (experimentalRequestId s))
       \<and> Suc (experimentalRequestId s) \<notin> set (issued es (init_world p w))
       \<and> (\<forall>x \<in> set (posted (trace s)).
             get_opt (fst (snd x)) ''id'' \<noteq> JNum (int (Suc (experimentalRequestId s))))"
proof -
  have st: "stable s" using assms(1) by (simp add: reachable_stable)
  have 1: "posted (trace (snd (sendExperimentalRequest m params opts s)))
      = posted (trace s) @ [(parent s, envelope (Suc (experimentalRequestId s)) m params, ''*'')]"
    using step_posted[OF st, of "Send m params opts"] assms(2,3) by simp
  have 3: "fst (sendExperimentalRequest m params opts s) = New_Promise (Suc (experimentalRequestId s))"
    using assms(2) by (simp add: send_returns)
  have 4: "Suc (experimentalRequestId s) \<notin> set (issued es (init_world p w))"
    using issued_interval[OF init_stable, of es p w] assms(1) by simp
  have 5: "get_opt (fst (snd x)) ''id'' \<noteq> JNum (int (Suc (experimentalRequestId s)))"
    if "x \<in> set (posted (trace s))" for x
  proof -
    have "\<exists>k m p. fst (snd x) = envelope k m p \<and> k \<le> experimentalRequestId s"
      using posted_ids[OF init_stable, of p w x es] that assms(1) by (simp add: init_world_def)
    then show ?thesis by auto
  qed
  show ?thesis using 1 3 4 5 envelope_shape by blast
qed

theorem sendExperimentalRequest_posts_envelope_witness:
  "posted (trace (snd (sendExperimentalRequest ''x/ping'' JUndefined None guest)))
     = [(7, JObj [(''jsonrpc'', JStr ''2.0''), (''id'', JNum 1), (''method'', JStr ''x/ping'')], ''*'')]
   \<and> posted (trace (snd (sendExperimentalRequest ''x/clipboard/write''
                            (JObj [(''text'', JStr ''hello'')]) None guest)))
     = [(7, JObj [(''jsonrpc'', JStr ''2.0''), (''id'', JNum 1), (''method'', JStr ''x/clipboard/write''),
                  (''params'', JObj [(''text'', JStr ''hello'')])], ''*'')]"
proof -
  have r: "guest = run [] (init_world 7 1)" by (simp add: guest_def run_def)
  have i: "parent guest \<noteq> self guest" by (simp add: guest_def init_world_def)
  have a: "\<not> aborted_at_call None guest" by (simp add: aborted_at_call_def opt_signal_def)
  show ?thesis
    using sendExperimentalRequest_posts_envelope[OF r i a, of "''x/ping''" JUndefined]
      sendExperimentalRequest_posts_envelope[OF r i a, of "''x/clipboard/write''"
        "JObj [(''text'', JStr ''hello'')]"]
    by (simp add: guest_def init_world_def)
qed

section \<open>C7: a call outside an iframe\<close>

text \<open>
  C7. When \<open>window.parent === window\<close>, \<open>sendExperimentalRequest\<close> returns a promise that
  is already rejected and leaves the window as it was: no id is consumed, no listener or
  timer is registered, no message is posted. Nothing is ever posted from a top-level
  window, whatever is called and whatever events arrive.
\<close>

theorem sendExperimentalRequest_outside_iframe:
  assumes "parent s = self s"
  shows "sendExperimentalRequest m params opts s =
           (Promise_reject
              (Thrown (Error ''sendExperimentalRequest must be called from within an iframe'')), s)
       \<and> posted (trace (snd (sendExperimentalRequest m params opts s))) = posted (trace s)
       \<and> posted (trace (run es (init_world w w))) = []"
proof -
  have "posted (trace (run es (init_world w w))) = posted (trace (init_world w w))"
    by (rule run_posted_top_level[OF init_stable]) (simp add: init_world_def)
  then show ?thesis using assms by (simp add: sendExperimentalRequest_def init_world_def)
qed

theorem sendExperimentalRequest_outside_iframe_witness:
  "parent top_level = self top_level
   \<and> sendExperimentalRequest ''x/test'' JUndefined None top_level =
       (Promise_reject
          (Thrown (Error ''sendExperimentalRequest must be called from within an iframe'')),
        top_level)
   \<and> posted (trace (run [Send ''x/test'' JUndefined None, Advance 30000] (init_world 1 1))) = []"
proof -
  have top: "parent top_level = self top_level"
    by (simp add: top_level_def init_world_def)
  show ?thesis
    using top sendExperimentalRequest_outside_iframe[OF top, of "''x/test''" JUndefined None
        "[Send ''x/test'' JUndefined None, Advance 30000]" 1]
    by simp
qed

section \<open>C8: registration comes before the send\<close>

text \<open>
  C8. One call from inside an iframe (signal not already aborted) performs, after taking
  its id, these platform calls and no others, in this order: the abort listener (when a
  signal is given), the message listener, the timer (when the timeout is positive), and
  last the \<open>postMessage\<close> of the envelope. So when the envelope is handed over, the id is
  allocated and the listeners and the timer are in place, and a response dispatched
  immediately after the call settles the promise.
\<close>

theorem sendExperimentalRequest_registers_before_posting:
  assumes "s = run es (init_world p w)" "parent s \<noteq> self s" "\<not> aborted_at_call opts s"
    and "s' = snd (sendExperimentalRequest m params opts s)" "k = Suc (experimentalRequestId s)"
  shows "trace s' =
           trace s
           @ (case opt_signal opts of None \<Rightarrow> [] | Some g \<Rightarrow> [AddAbortListener g k])
           @ [AddMessageListener k]
           @ (if 0 < effective_timeout opts
              then [SetTimeout (Suc (next_timer s)) (effective_timeout opts) k] else [])
           @ [PostMessage (parent s) (envelope k m params) ''*'']
       \<and> experimentalRequestId s' = k
       \<and> k \<in> set (message_listeners s')
       \<and> (\<forall>g. opt_signal opts = Some g \<longrightarrow> (g, k) \<in> set (abort_listeners s'))
       \<and> (0 < effective_timeout opts
            \<longrightarrow> (Suc (next_timer s), now s + nat (effective_timeout opts), k) \<in> set (timers s'))
       \<and> (\<forall>d. get_opt d ''jsonrpc'' = JStr ''2.0'' \<and> get_opt d ''id'' = JNum (int k)
            \<longrightarrow> promises (step (Message (parent s) d) s') k = Some (outcome d))"
proof -
  have st: "stable s" using assms(1) by (simp add: reachable_stable)
  have s': "s' = sent m params opts s" using assms(4) by (simp add: sent_def)
  note f = sent_fields[OF assms(2,3), of m params, folded s' assms(5)]
  have st': "stable s'" unfolding s' using st by (rule sent_stable)
  have mem: "k \<in> set (message_listeners s')" by (simp add: f)
  have "promises (step (Message (parent s) d) s') k = Some (outcome d)" if "matches k d" for d
    using dispatch_message_match[OF _ that mem] st' by (simp add: stable_def f)
  then show ?thesis
    using mem by (auto simp: f matches_def split: option.splits)
qed

theorem sendExperimentalRequest_registers_before_posting_witness:
  "trace (snd (sendExperimentalRequest ''x/test'' JUndefined (with_signal 3 100) guest))
     = [AddAbortListener 3 1, AddMessageListener 1, SetTimeout 1 100 1,
        PostMessage 7 (JObj [(''jsonrpc'', JStr ''2.0''), (''id'', JNum 1), (''method'', JStr ''x/test'')])
          ''*'']
   \<and> promises (step (Message 7 (response 1 (JBool True)))
        (snd (sendExperimentalRequest ''x/test'' JUndefined (with_signal 3 100) guest))) 1
     = Some (Fulfilled (JBool True))"
proof -
  have r: "guest = run [] (init_world 7 1)" by (simp add: guest_def run_def)
  have i: "parent guest \<noteq> self guest" by (simp add: guest_def init_world_def)
  have a: "\<not> aborted_at_call (with_signal 3 100) guest"
    by (simp add: aborted_at_call_def opt_signal_def with_signal_def guest_def init_world_def)
  have m: "get_opt (response 1 (JBool True)) ''jsonrpc'' = JStr ''2.0''
      \<and> get_opt (response 1 (JBool True)) ''id'' = JNum (int (Suc (experimentalRequestId guest)))"
    by (simp add: response_def guest_def init_world_def)
  show ?thesis
    using sendExperimentalRequest_registers_before_posting[OF r i a refl refl,
        of "''x/test''" JUndefined] m
    by (simp add: guest_def init_world_def effective_timeout_def opt_timeoutMs_def opt_signal_def
        with_signal_def envelope_def assign_def DEFAULT_EXPERIMENTAL_REQUEST_TIMEOUT_MS_def
        outcome_def response_def)
qed

section \<open>C9: request ids\<close>

text \<open>
  C9. Whatever happens in between (responses, timeouts, aborts, calls outside an iframe),
  the ids handed out by the calls of \<open>sendExperimentalRequest\<close> since the module was loaded
  are 1, 2, 3, ... in this order: each is greater than all earlier ones and none is handed
  out twice.
\<close>

theorem request_ids_increase:
  "issued es (init_world p w) = [1 ..< Suc (length (issued es (init_world p w)))]
   \<and> sorted_wrt (<) (issued es (init_world p w))
   \<and> distinct (issued es (init_world p w))"
proof -
  define n where "n = experimentalRequestId (run es (init_world p w))"
  have eq: "issued es (init_world p w) = [1 ..< Suc n]"
    using issued_interval[OF init_stable, of es p w] by (simp add: n_def init_world_def)
  have "length (issued es (init_world p w)) = n" by (simp add: eq)
  then have 1: "issued es (init_world p w) = [1 ..< Suc (length (issued es (init_world p w)))]"
    using eq by simp
  have 2: "sorted_wrt (<) (issued es (init_world p w))"
    by (simp only: eq sorted_wrt_upt)
  have 3: "distinct (issued es (init_world p w))"
    by (simp only: eq distinct_upt)
  show ?thesis using 1 2 3 by blast
qed

theorem request_ids_increase_witness:
  "issued [Send ''a'' JUndefined None, Message 7 (response 1 JNull), Send ''b'' JUndefined None,
           Advance 30000, Send ''c'' JUndefined None] (init_world 7 1) = [1, 2, 3]"
proof -
  have "length (issued [Send ''a'' JUndefined None, Message 7 (response 1 JNull),
      Send ''b'' JUndefined None, Advance 30000, Send ''c'' JUndefined None] (init_world 7 1)) = 3"
    by (simp add: eval_defs)
  then show ?thesis
    using request_ids_increase[of "[Send ''a'' JUndefined None, Message 7 (response 1 JNull),
      Send ''b'' JUndefined None, Advance 30000, Send ''c'' JUndefined None]" 7 1]
    by (simp add: upt_rec)
qed

section \<open>C10: createUIResource validates its options\<close>

lemma content_and_mime_uri:
  assumes "supported_content options" "\<not> startsWith (uri options) ''ui://''"
  shows "\<exists>msg. content_and_mime u options = Inl (Error msg)"
  using assms by (auto simp: content_and_mime_def supported_content_def)

lemma content_and_mime_string:
  assumes "supported_content options" "\<not> is_string (content_string options)"
  shows "\<exists>msg. content_and_mime u options = Inl (Error msg)"
proof (cases "field (content options) ''type'' = JStr ''rawHtml''")
  case True
  then show ?thesis
    using assms(2)
    by (cases "field (content options) ''htmlString''")
       (simp_all add: content_and_mime_def content_string_def)
next
  case False
  then have "field (content options) ''type'' = JStr ''externalUrl''"
    using assms(1) by (simp add: supported_content_def)
  then show ?thesis
    using assms(2)
    by (cases "field (content options) ''iframeUrl''")
       (simp_all add: content_and_mime_def content_string_def)
qed

lemma content_and_mime_ok:
  assumes "supported_content options" "startsWith (uri options) ''ui://''"
    "is_string (content_string options)"
  shows "\<exists>str mime. content_and_mime u options = Inr (str, mime)"
proof (cases "field (content options) ''type'' = JStr ''rawHtml''")
  case True
  then show ?thesis
    using assms(2,3)
    by (cases "field (content options) ''htmlString''")
       (simp_all add: content_and_mime_def content_string_def)
next
  case False
  then have "field (content options) ''type'' = JStr ''externalUrl''"
    using assms(1) by (simp add: supported_content_def)
  then show ?thesis
    using assms(2,3)
    by (cases "field (content options) ''iframeUrl''")
       (simp_all add: content_and_mime_def content_string_def)
qed

text \<open>
  C10, the claim as stated fails: the options of the test suite's raw HTML resource, with
  the encoding left out, pass both validations (the URI starts with \<open>ui://\<close>, \<open>htmlString\<close>
  is a string), and \<open>createUIResource\<close> throws instead of returning a resource.
\<close>

theorem createUIResource_encoding_counterexample:
  "supported_content (test_options JUndefined)
   \<and> startsWith (uri (test_options JUndefined)) ''ui://''
   \<and> is_string (content_string (test_options JUndefined))
   \<and> createUIResource test_utils (test_options JUndefined)
       = Inl (Error ''MCP-UI SDK: Invalid encoding type: undefined'')"
  by (simp add: supported_content_def content_string_def test_options_def test_utils_def
      field_def startsWith_def createUIResource_def content_and_mime_def)

text \<open>
  C10, amended: for options whose \<open>content.type\<close> is \<open>'rawHtml'\<close> or \<open>'externalUrl'\<close>,
  \<open>createUIResource\<close> throws when the URI does not start with \<open>ui://\<close> and when the content
  string is not a string. When both validations pass it throws for an encoding other than
  \<open>'text'\<close> and \<open>'blob'\<close>; for these two encodings, and spread properties that do not
  overwrite \<open>uri\<close>, \<open>type\<close> or \<open>resource\<close>, it returns an object whose \<open>type\<close> is
  \<open>'resource'\<close> and whose \<open>resource.uri\<close> is the URI of the options.
\<close>

theorem createUIResource_validates:
  assumes "supported_content options"
  shows "(\<not> startsWith (uri options) ''ui://''
            \<longrightarrow> (\<exists>msg. createUIResource u options = Inl (Error msg)))
       \<and> (\<not> is_string (content_string options)
            \<longrightarrow> (\<exists>msg. createUIResource u options = Inl (Error msg)))
       \<and> (startsWith (uri options) ''ui://'' \<and> is_string (content_string options)
            \<and> encoding options \<noteq> JStr ''text'' \<and> encoding options \<noteq> JStr ''blob''
            \<longrightarrow> createUIResource u options
                  = Inl (Error (''MCP-UI SDK: Invalid encoding type: '' @ to_String (encoding options))))
       \<and> (startsWith (uri options) ''ui://'' \<and> is_string (content_string options)
            \<and> (encoding options = JStr ''text'' \<or> encoding options = JStr ''blob'')
            \<and> keeps_keys u options
            \<longrightarrow> (\<exists>obj res. createUIResource u options = Inr (JObj obj)
                   \<and> field obj ''type'' = JStr ''resource''
                   \<and> field obj ''resource'' = JObj res
                   \<and> field res ''uri'' = JStr (uri options)))"
proof (intro conjI impI)
  assume "\<not> startsWith (uri options) ''ui://''"
  from content_and_mime_uri[OF assms this, of u]
  show "\<exists>msg. createUIResource u options = Inl (Error msg)"
    by (auto simp: createUIResource_def)
next
  assume "\<not> is_string (content_string options)"
  from content_and_mime_string[OF assms this, of u]
  show "\<exists>msg. createUIResource u options = Inl (Error msg)"
    by (auto simp: createUIResource_def)
next
  assume a: "startsWith (uri options) ''ui://'' \<and> is_string (content_string options)
      \<and> encoding options \<noteq> JStr ''text'' \<and> encoding options \<noteq> JStr ''blob''"
  then obtain str mime where "content_and_mime u options = Inr (str, mime)"
    using content_and_mime_ok[OF assms, of u] by blast
  then show "createUIResource u options
      = Inl (Error (''MCP-UI SDK: Invalid encoding type: '' @ to_String (encoding options)))"
    using a by (simp add: createUIResource_def)
next
  assume a: "startsWith (uri options) ''ui://'' \<and> is_string (content_string options)
      \<and> (encoding options = JStr ''text'' \<or> encoding options = JStr ''blob'')
      \<and> keeps_keys u options"
  then obtain str mime where cm: "content_and_mime u options = Inr (str, mime)"
    using content_and_mime_ok[OF assms, of u] by blast
  define payload where
    "payload = (if encoding options = JStr ''text'' then (''text'', JStr str)
                else (''blob'', JStr (utf8ToBase64 u str)))"
  define res where
    "res = assign [(''uri'', JStr (uri options)), (''mimeType'', mime), payload]
             (getAdditionalResourceProps u options)"
  define obj where
    "obj = assign [(''type'', JStr ''resource''), (''resource'', JObj res)]
             (case embeddedResourceProps options of None \<Rightarrow> [] | Some ps \<Rightarrow> ps)"
  have r: "createUIResource u options = Inr (JObj obj)"
    using a cm by (auto simp: createUIResource_def obj_def res_def payload_def)
  have keys: "''type'' \<notin> fst ` set (case embeddedResourceProps options of None \<Rightarrow> [] | Some ps \<Rightarrow> ps)"
    "''resource'' \<notin> fst ` set (case embeddedResourceProps options of None \<Rightarrow> [] | Some ps \<Rightarrow> ps)"
    "''uri'' \<notin> fst ` set (getAdditionalResourceProps u options)"
    using a by (auto simp: keeps_keys_def split: option.splits)
  have "field obj ''type'' = JStr ''resource''"
    unfolding obj_def by (simp add: field_assign_other[OF keys(1)]) (simp add: field_def)
  moreover have "field obj ''resource'' = JObj res"
    unfolding obj_def by (simp add: field_assign_other[OF keys(2)]) (simp add: field_def)
  moreover have "field res ''uri'' = JStr (uri options)"
    unfolding res_def by (simp add: field_assign_other[OF keys(3)]) (simp add: field_def)
  ultimately show "\<exists>obj res. createUIResource u options = Inr (JObj obj)
      \<and> field obj ''type'' = JStr ''resource'' \<and> field obj ''resource'' = JObj res
      \<and> field res ''uri'' = JStr (uri options)"
    using r by blast
qed

theorem createUIResource_validates_witness:
  "supported_content (test_options (JStr ''text''))
   \<and> (\<exists>obj res. createUIResource test_utils (test_options (JStr ''text'')) = Inr (JObj obj)
         \<and> field obj ''type'' = JStr ''resource''
         \<and> field obj ''resource'' = JObj res
         \<and> field res ''uri'' = JStr ''ui://test-html'')
   \<and> (\<exists>msg. createUIResource test_utils ((test_options (JStr ''text''))\<lparr>uri := ''invalid://test-html''\<rparr>)
         = Inl (Error msg))
   \<and> (\<exists>msg. createUIResource test_utils
                ((test_options (JStr ''text''))\<lparr>content := [(''type'', JStr ''rawHtml''), (''htmlString'', JNull)]\<rparr>)
         = Inl (Error msg))"
proof -
  have s1: "supported_content (test_options (JStr ''text''))"
    by (simp add: supported_content_def test_options_def field_def)
  have s2: "supported_content ((test_options (JStr ''text''))\<lparr>uri := ''invalid://test-html''\<rparr>)"
    by (simp add: supported_content_def test_options_def field_def)
  have s3: "supported_content
      ((test_options (JStr ''text''))\<lparr>content := [(''type'', JStr ''rawHtml''), (''htmlString'', JNull)]\<rparr>)"
    by (simp add: supported_content_def test_options_def field_def)
  show ?thesis
    using s1 createUIResource_validates[OF s1, of test_utils]
      createUIResource_validates[OF s2, of test_utils]
      createUIResource_validates[OF s3, of test_utils]
    by (simp add: test_options_def test_utils_def startsWith_def content_string_def field_def
        keeps_keys_def no_additional_props_def)
qed

end
